theory Spec2Isabelle
  imports Main "HOL-Library.Sublist" "HOL-Library.Word"
begin

section \<open>Strings\<close>

text \<open>
  A Python \<open>str\<close> is a sequence of Unicode code points. It is modelled as the list of
  its code points, so that text beyond Latin-1 (Hangul, U+FFFD) is one element per
  character, as \<open>len\<close>, \<open>in\<close>, \<open>startswith\<close> and \<open>endswith\<close> see it. \<open>ustr\<close> reads an
  ASCII literal of the source as such a list.
\<close>

type_synonym pystr = "nat list"

definition ustr :: "string \<Rightarrow> pystr" where
  "ustr s = map of_char s"

abbreviation ch_star :: nat where "ch_star \<equiv> 42"
abbreviation ch_qmark :: nat where "ch_qmark \<equiv> 63"
abbreviation ch_dot :: nat where "ch_dot \<equiv> 46"
abbreviation ch_lbracket :: nat where "ch_lbracket \<equiv> 91"
abbreviation ch_rbracket :: nat where "ch_rbracket \<equiv> 93"
abbreviation ch_bang :: nat where "ch_bang \<equiv> 33"
abbreviation ch_lf :: nat where "ch_lf \<equiv> 10"
abbreviation ch_cr :: nat where "ch_cr \<equiv> 13"
abbreviation ch_replacement :: nat where "ch_replacement \<equiv> 65533"

text \<open>\<open>q in line\<close> on strings: \<open>q\<close> occurs as a contiguous run of \<open>line\<close>.\<close>

fun str_in :: "pystr \<Rightarrow> pystr \<Rightarrow> bool" where
  "str_in q [] = (q = [])"
| "str_in q (c # cs) = (prefix q (c # cs) \<or> str_in q cs)"

text \<open>
  \<open>str.isspace\<close> per character, the set \<open>str.strip()\<close> removes at both ends:
  the ASCII controls TAB..CR and FS..US, the space, NEL, NBSP and the Unicode
  space separators and line and paragraph separators.
\<close>

definition is_space :: "nat \<Rightarrow> bool" where
  "is_space c \<longleftrightarrow>
     (9 \<le> c \<and> c \<le> 13) \<or> (28 \<le> c \<and> c \<le> 32) \<or> c = 133 \<or> c = 160 \<or> c = 5760 \<or>
     (8192 \<le> c \<and> c \<le> 8202) \<or> c = 8232 \<or> c = 8233 \<or> c = 8239 \<or> c = 8287 \<or>
     c = 12288"

definition strip :: "pystr \<Rightarrow> pystr" where
  "strip s = rev (dropWhile is_space (rev (dropWhile is_space s)))"

text \<open>
  \<open>str.lower\<close> on ASCII text: the letters A..Z move to a..z, every other character
  stays. On text outside ASCII \<open>str.lower\<close> follows the Unicode tables, which are
  not part of the repository: there the function is a parameter of the model.
\<close>

definition ascii_lower_char :: "nat \<Rightarrow> nat" where
  "ascii_lower_char c = (if 65 \<le> c \<and> c \<le> 90 then c + 32 else c)"

definition ascii_lower :: "pystr \<Rightarrow> pystr" where
  "ascii_lower s = map ascii_lower_char s"

definition is_ascii :: "pystr \<Rightarrow> bool" where
  "is_ascii s \<longleftrightarrow> (\<forall>c \<in> set s. c < 128)"

section \<open>Decoding a file's bytes\<close>

type_synonym byte = "8 word"

datatype encoding = Utf8 | Cp949 | EucKr | Latin1

text \<open>The list of \<open>_file_contains_text\<close>, in its order.\<close>

definition encodings :: "encoding list" where
  "encodings = [Utf8, Cp949, EucKr, Latin1]"

definition is_continuation :: "nat \<Rightarrow> bool" where
  "is_continuation b \<longleftrightarrow> 128 \<le> b \<and> b \<le> 191"

text \<open>
  The second byte a three-byte or four-byte lead accepts: E0 excludes overlong forms,
  ED excludes the surrogates, F0 excludes overlong forms and F4 stops at U+10FFFF.
\<close>

definition second_ok :: "nat \<Rightarrow> nat \<Rightarrow> bool" where
  "second_ok lead b \<longleftrightarrow>
     is_continuation b \<and>
     (lead = 224 \<longrightarrow> 160 \<le> b) \<and> (lead = 237 \<longrightarrow> b < 160) \<and>
     (lead = 240 \<longrightarrow> 144 \<le> b) \<and> (lead = 244 \<longrightarrow> b < 144)"

text \<open>
  UTF-8 decoding under \<open>errors="replace"\<close>, on byte values: a well-formed sequence
  gives its code point; an invalid lead byte, or the longest well-formed beginning of
  a sequence that breaks off, gives one U+FFFD and decoding goes on with the next
  byte. No input raises.
\<close>

fun utf8_units :: "nat list \<Rightarrow> pystr" where
  "utf8_units [] = []"
| "utf8_units (b # bs) =
     (if b < 128 then b # utf8_units bs
      else if b < 194 then ch_replacement # utf8_units bs
      else if b < 224 then
        (case bs of
           [] \<Rightarrow> [ch_replacement]
         | b1 # r1 \<Rightarrow>
             if is_continuation b1 then ((b - 192) * 64 + (b1 - 128)) # utf8_units r1
             else ch_replacement # utf8_units bs)
      else if b < 240 then
        (case bs of
           [] \<Rightarrow> [ch_replacement]
         | b1 # r1 \<Rightarrow>
             if \<not> second_ok b b1 then ch_replacement # utf8_units bs
             else
               (case r1 of
                  [] \<Rightarrow> [ch_replacement]
                | b2 # r2 \<Rightarrow>
                    if is_continuation b2
                    then ((b - 224) * 4096 + (b1 - 128) * 64 + (b2 - 128)) # utf8_units r2
                    else ch_replacement # utf8_units r1))
      else if b < 245 then
        (case bs of
           [] \<Rightarrow> [ch_replacement]
         | b1 # r1 \<Rightarrow>
             if \<not> second_ok b b1 then ch_replacement # utf8_units bs
             else
               (case r1 of
                  [] \<Rightarrow> [ch_replacement]
                | b2 # r2 \<Rightarrow>
                    if \<not> is_continuation b2 then ch_replacement # utf8_units r1
                    else
                      (case r2 of
                         [] \<Rightarrow> [ch_replacement]
                       | b3 # r3 \<Rightarrow>
                           if is_continuation b3
                           then ((b - 240) * 262144 + (b1 - 128) * 4096 + (b2 - 128) * 64
                                 + (b3 - 128)) # utf8_units r3
                           else ch_replacement # utf8_units r2)))
      else ch_replacement # utf8_units bs)"

definition utf8_decode_replace :: "byte list \<Rightarrow> pystr" where
  "utf8_decode_replace bs = utf8_units (map unat bs)"

text \<open>
  Strict UTF-8 decoding (\<open>errors="strict"\<close>): the text when every sequence is
  well-formed, \<open>None\<close> where the decoder raises \<open>UnicodeDecodeError\<close>. Well-formed
  input never produces U+FFFD from a repair, so the strict decoder is the replacing one
  guarded by a check of the sequences.
\<close>

fun utf8_wellformed :: "nat list \<Rightarrow> bool" where
  "utf8_wellformed [] = True"
| "utf8_wellformed (b # bs) =
     (if b < 128 then utf8_wellformed bs
      else if b < 194 then False
      else if b < 224 then
        (case bs of b1 # r1 \<Rightarrow> is_continuation b1 \<and> utf8_wellformed r1 | _ \<Rightarrow> False)
      else if b < 240 then
        (case bs of
           b1 # b2 # r2 \<Rightarrow> second_ok b b1 \<and> is_continuation b2 \<and> utf8_wellformed r2
         | _ \<Rightarrow> False)
      else if b < 245 then
        (case bs of
           b1 # b2 # b3 # r3 \<Rightarrow>
             second_ok b b1 \<and> is_continuation b2 \<and> is_continuation b3 \<and> utf8_wellformed r3
         | _ \<Rightarrow> False)
      else False)"

definition utf8_decode_strict :: "byte list \<Rightarrow> pystr option" where
  "utf8_decode_strict bs =
     (if utf8_wellformed (map unat bs) then Some (utf8_decode_replace bs) else None)"

text \<open>Latin-1 maps every byte to the code point of the same number.\<close>

definition latin1_decode :: "byte list \<Rightarrow> pystr" where
  "latin1_decode bs = map unat bs"

text \<open>
  The tables of the two Korean code pages belong to the Python runtime, not to the
  repository; \<open>legacy\<close> stands for the runtime's decoder of such a code page under
  \<open>errors="replace"\<close>, which returns a text for every input.
\<close>

definition decode_replace :: "(encoding \<Rightarrow> byte list \<Rightarrow> pystr) \<Rightarrow> encoding \<Rightarrow> byte list \<Rightarrow> pystr" where
  "decode_replace legacy enc bs =
     (case enc of
        Utf8 \<Rightarrow> utf8_decode_replace bs
      | Latin1 \<Rightarrow> latin1_decode bs
      | _ \<Rightarrow> legacy enc bs)"

text \<open>
  Iterating a file opened in text mode (universal newlines): \<open>\r\n\<close> and a lone \<open>\r\<close>
  become \<open>\n\<close>, and every line keeps its final \<open>\n\<close>; a last line without one is
  still a line. The first argument is the line being collected, reversed.
\<close>

fun read_lines :: "pystr \<Rightarrow> pystr \<Rightarrow> pystr list" where
  "read_lines acc [] = (if acc = [] then [] else [rev acc])"
| "read_lines acc (c # cs) =
     (if c = ch_cr then
        (case cs of
           [] \<Rightarrow> [rev (ch_lf # acc)]
         | d # ds \<Rightarrow>
             if d = ch_lf then rev (ch_lf # acc) # read_lines [] ds
             else rev (ch_lf # acc) # read_lines [] cs)
      else if c = ch_lf then rev (ch_lf # acc) # read_lines [] cs
      else read_lines (c # acc) cs)"

definition text_lines :: "pystr \<Rightarrow> pystr list" where
  "text_lines t = read_lines [] t"

section \<open>The platform\<close>

text \<open>
  What one attempt \<open>with open(path, "r", encoding=enc, errors="replace") as f\<close> followed
  by \<open>for line in f\<close> can do: \<open>open\<close> raises; or the iteration yields all the lines of
  the file; or it yields some lines and then a read raises.
\<close>

datatype attempt = OpenRaises | ReadAll "pystr list" | ReadFails "pystr list"

text \<open>
  What \<open>os.listdir(folder)\<close> can do: return the names, raise \<open>PermissionError\<close>, or raise
  another exception (the folder vanished, is not a directory).
\<close>

datatype listing = Names "pystr list" | PermissionError | OtherError

text \<open>
  The file system and the functions of the Python runtime the program calls, as the
  program sees them during one run. \<open>os_walk\<close> gives, in the order of the traversal,
  each directory with the names of its files (\<open>os.walk\<close> skips what it cannot list and
  never raises). \<open>re_set\<close> is the meaning the \<open>re\<close> module gives to the body of a
  bracket expression of a glob: whether a character belongs to it.
\<close>

record platform =
  open_text :: "pystr \<Rightarrow> encoding \<Rightarrow> attempt"
  str_lower :: "pystr \<Rightarrow> pystr"
  os_walk :: "pystr \<Rightarrow> (pystr \<times> pystr list) list"
  os_listdir :: "pystr \<Rightarrow> listing"
  path_isfile :: "pystr \<Rightarrow> bool"
  path_isdir :: "pystr \<Rightarrow> bool"
  path_join :: "pystr \<Rightarrow> pystr \<Rightarrow> pystr"
  path_normcase :: "pystr \<Rightarrow> pystr"
  re_set :: "pystr \<Rightarrow> nat \<Rightarrow> bool"

text \<open>
  A file system whose files hold bytes: opening a missing or unreadable file raises,
  any other file is decoded with replacement under the encoding asked for and read
  line by line.
\<close>

definition open_bytes ::
  "(encoding \<Rightarrow> byte list \<Rightarrow> pystr) \<Rightarrow> (pystr \<Rightarrow> byte list option) \<Rightarrow> pystr \<Rightarrow> encoding \<Rightarrow> attempt"
where
  "open_bytes legacy files path enc =
     (case files path of
        None \<Rightarrow> OpenRaises
      | Some bs \<Rightarrow> ReadAll (text_lines (decode_replace legacy enc bs)))"

section \<open>\<open>_file_contains_text\<close>\<close>

text \<open>\<open>for line in f: if hit(line): return True\<close>, then falling out of the loop.\<close>

fun scan_lines :: "(pystr \<Rightarrow> bool) \<Rightarrow> pystr list \<Rightarrow> bool" where
  "scan_lines hit [] = False"
| "scan_lines hit (line # rest) = (if hit line then True else scan_lines hit rest)"

text \<open>
  The test of one line: \<open>query in line\<close> when case matters, otherwise
  \<open>q in line.lower()\<close> with \<open>q = query.lower()\<close> taken before the loop.
\<close>

definition line_test :: "platform \<Rightarrow> pystr \<Rightarrow> bool \<Rightarrow> pystr \<Rightarrow> bool" where
  "line_test P query case_sensitive =
     (if case_sensitive then (\<lambda>line. str_in query line)
      else (let q = str_lower P query in (\<lambda>line. str_in q (str_lower P line))))"

text \<open>
  The body of the \<open>try\<close> for one encoding: \<open>Some b\<close> is \<open>return b\<close>, \<open>None\<close> is an
  exception, which \<open>except Exception: continue\<close> turns into the next encoding.
\<close>

definition try_encoding :: "platform \<Rightarrow> pystr \<Rightarrow> bool \<Rightarrow> attempt \<Rightarrow> bool option" where
  "try_encoding P query case_sensitive a =
     (case a of
        OpenRaises \<Rightarrow> None
      | ReadAll ls \<Rightarrow> Some (scan_lines (line_test P query case_sensitive) ls)
      | ReadFails ls \<Rightarrow>
          if scan_lines (line_test P query case_sensitive) ls then Some True else None)"

fun try_encodings :: "platform \<Rightarrow> pystr \<Rightarrow> pystr \<Rightarrow> bool \<Rightarrow> encoding list \<Rightarrow> bool" where
  "try_encodings P path query case_sensitive [] = False"
| "try_encodings P path query case_sensitive (enc # encs) =
     (case try_encoding P query case_sensitive (open_text P path enc) of
        Some b \<Rightarrow> b
      | None \<Rightarrow> try_encodings P path query case_sensitive encs)"

definition file_contains_text :: "platform \<Rightarrow> pystr \<Rightarrow> pystr \<Rightarrow> bool \<Rightarrow> bool" where
  "file_contains_text P path query case_sensitive =
     try_encodings P path query case_sensitive encodings"

section \<open>Name matching: \<open>fnmatch\<close> and \<open>_iter_files\<close>\<close>

text \<open>
  \<open>fnmatch.translate\<close> reads a pattern into a sequence of items: \<open>*\<close> (runs of it
  count once), \<open>?\<close>, a bracket expression with its body, and every other character as
  itself. A \<open>[\<close> opens a bracket expression when a \<open>]\<close> follows, not counting a \<open>]\<close>
  that stands first in the body or first after \<open>!\<close>; otherwise \<open>[\<close> is a literal.
\<close>

datatype glob_item = STAR | AnyChar | Literal nat | CharSet pystr

fun until_close :: "pystr \<Rightarrow> nat option" where
  "until_close [] = None"
| "until_close (c # cs) = (if c = ch_rbracket then Some 0 else map_option Suc (until_close cs))"

text \<open>
  For the text after a \<open>[\<close>: the length of the body \<open>stuff = pat[i:j]\<close>, or \<open>None\<close>
  when the scan for the closing bracket runs off the pattern (\<open>j >= n\<close>).
\<close>

definition bracket_body :: "pystr \<Rightarrow> nat option" where
  "bracket_body rest =
     (let a = (if take 1 rest = [ch_bang] then 1 else 0);
          b = (if take 1 (drop a rest) = [ch_rbracket] then a + 1 else a)
      in map_option (\<lambda>k. b + k) (until_close (drop b rest)))"

text \<open>The first argument counts the characters a bracket expression has already consumed.\<close>

fun translate_from :: "nat \<Rightarrow> pystr \<Rightarrow> glob_item list" where
  "translate_from skip [] = []"
| "translate_from (Suc skip) (c # cs) = translate_from skip cs"
| "translate_from 0 (c # cs) =
     (if c = ch_star then
        (case translate_from 0 cs of STAR # r \<Rightarrow> STAR # r | r \<Rightarrow> STAR # r)
      else if c = ch_qmark then AnyChar # translate_from 0 cs
      else if c = ch_lbracket then
        (case bracket_body cs of
           None \<Rightarrow> Literal ch_lbracket # translate_from 0 cs
         | Some k \<Rightarrow> CharSet (take k cs) # translate_from (Suc k) cs)
      else Literal c # translate_from 0 cs)"

definition translate :: "pystr \<Rightarrow> glob_item list" where
  "translate pat = translate_from 0 pat"

text \<open>
  The regular expression of \<open>translate\<close> is matched against the whole name
  (\<open>re.match\<close> with a final \<open>\Z\<close>, \<open>.\<close> matching every character): the items match
  one after the other, a \<open>*\<close> any run of characters.
\<close>

fun glob_match :: "platform \<Rightarrow> glob_item list \<Rightarrow> pystr \<Rightarrow> bool" where
  "glob_match P [] s = (s = [])"
| "glob_match P (STAR # items) s =
     (glob_match P items s \<or> (case s of [] \<Rightarrow> False | _ # s' \<Rightarrow> glob_match P (STAR # items) s'))"
| "glob_match P (AnyChar # items) s =
     (case s of [] \<Rightarrow> False | _ # s' \<Rightarrow> glob_match P items s')"
| "glob_match P (Literal c # items) s =
     (case s of [] \<Rightarrow> False | d # s' \<Rightarrow> d = c \<and> glob_match P items s')"
| "glob_match P (CharSet body # items) s =
     (case s of [] \<Rightarrow> False | d # s' \<Rightarrow> re_set P body d \<and> glob_match P items s')"

definition fnmatchcase :: "platform \<Rightarrow> pystr \<Rightarrow> pystr \<Rightarrow> bool" where
  "fnmatchcase P name pat = glob_match P (translate pat) name"

definition fnmatch :: "platform \<Rightarrow> pystr \<Rightarrow> pystr \<Rightarrow> bool" where
  "fnmatch P name pat = fnmatchcase P (path_normcase P name) (path_normcase P pat)"

text \<open>
  The test both branches of \<open>_iter_files\<close> apply to a name:
  \<open>fnmatch.fnmatch(name, pattern) or (pattern.startswith("*.") and
  name.endswith(pattern[1:]))\<close>.
\<close>

definition name_matches :: "platform \<Rightarrow> pystr \<Rightarrow> pystr \<Rightarrow> bool" where
  "name_matches P name pattern \<longleftrightarrow>
     fnmatch P name pattern \<or> (prefix (ustr ''*.'') pattern \<and> suffix (drop 1 pattern) name)"

text \<open>
  The generator \<open>_iter_files\<close>: the paths it yields, in order, and whether it ends by
  raising instead of by exhaustion (a \<open>PermissionError\<close> of \<open>os.listdir\<close> is caught and
  ends it normally; any other exception of \<open>os.listdir\<close> leaves the generator).
\<close>

definition iter_files :: "platform \<Rightarrow> pystr \<Rightarrow> pystr \<Rightarrow> bool \<Rightarrow> pystr list \<times> bool" where
  "iter_files P folder pattern recursive =
     (if recursive then
        (concat (map (\<lambda>(root, files).
                   map (path_join P root) (filter (\<lambda>name. name_matches P name pattern) files))
                 (os_walk P folder)),
         False)
      else
        (case os_listdir P folder of
           Names names \<Rightarrow>
             (map (path_join P folder)
                (filter (\<lambda>name. path_isfile P (path_join P folder name) \<and>
                                 name_matches P name pattern) names),
              False)
         | PermissionError \<Rightarrow> ([], False)
         | OtherError \<Rightarrow> ([], True)))"

section \<open>\<open>_search_worker\<close>\<close>

text \<open>The first two lines of the worker: from the extension to the glob pattern.\<close>

definition normalized_ext :: "pystr \<Rightarrow> pystr" where
  "normalized_ext ext =
     (if prefix (ustr ''.'') ext \<or> ch_star \<in> set ext \<or> ch_qmark \<in> set ext then ext
      else ustr ''.'' @ ext)"

definition glob_pattern :: "pystr \<Rightarrow> pystr" where
  "glob_pattern ext =
     (let n = normalized_ext ext
      in if \<not> (\<exists>c \<in> set (ustr ''*?''). c \<in> set n) then ustr ''*'' @ n else n)"

definition SEARCH_DONE :: pystr where
  "SEARCH_DONE = ustr ''__SEARCH_DONE__''"

text \<open>
  What the worker does, in order: a read of the cancellation flag with the value read,
  a call of \<open>_file_contains_text\<close> on a path, a \<open>put\<close> on the result queue.
\<close>

datatype event = IsSet bool | Examine pystr | Put pystr

text \<open>
  The \<open>for\<close> loop over the paths the generator yields. \<open>contains\<close> is the outcome of
  \<open>_file_contains_text\<close> on a path, \<open>None\<close> when it raises (the \<open>except Exception:
  continue\<close> of the loop); \<open>stop k\<close> is what the \<open>k\<close>-th call of \<open>stop_event.is_set()\<close>
  returns, the flag being set by another thread.
\<close>

fun worker_loop :: "(pystr \<Rightarrow> bool option) \<Rightarrow> (nat \<Rightarrow> bool) \<Rightarrow> nat \<Rightarrow> pystr list \<Rightarrow> event list" where
  "worker_loop contains stop k [] = []"
| "worker_loop contains stop k (path # rest) =
     (if stop k then [IsSet True]
      else IsSet False # Examine path #
           (case contains path of Some True \<Rightarrow> [Put path] | _ \<Rightarrow> []) @
           worker_loop contains stop (Suc k) rest)"

record run =
  trace :: "event list"
  raised :: bool

text \<open>
  \<open>try: ... finally: put("__SEARCH_DONE__")\<close> around the loop: the sentinel is put
  whatever ends the body. The exception of a generator that raises reaches the worker
  when the loop asks for the path after the last one, so only if no \<open>break\<close> came first;
  it leaves the worker after the \<open>finally\<close>.
\<close>

definition run_worker :: "(pystr \<Rightarrow> bool option) \<Rightarrow> (nat \<Rightarrow> bool) \<Rightarrow> pystr list \<times> bool \<Rightarrow> run" where
  "run_worker contains stop gen =
     (let body = worker_loop contains stop 0 (fst gen)
      in \<lparr>trace = body @ [Put SEARCH_DONE],
          raised = (snd gen \<and> IsSet True \<notin> set body)\<rparr>)"

definition search_worker ::
  "platform \<Rightarrow> (nat \<Rightarrow> bool) \<Rightarrow> pystr \<Rightarrow> pystr \<Rightarrow> pystr \<Rightarrow> bool \<Rightarrow> bool \<Rightarrow> run" where
  "search_worker P stop folder query ext recursive case_sensitive =
     (let pattern = glob_pattern ext;
          files_iter = iter_files P folder pattern recursive
      in run_worker (\<lambda>path. Some (file_contains_text P path query case_sensitive)) stop files_iter)"

text \<open>The items put on the result queue, in the order of the puts.\<close>

fun puts :: "event list \<Rightarrow> pystr list" where
  "puts [] = []"
| "puts (Put item # es) = item # puts es"
| "puts (_ # es) = puts es"

fun flag_reads :: "event list \<Rightarrow> nat" where
  "flag_reads [] = 0"
| "flag_reads (IsSet _ # es) = Suc (flag_reads es)"
| "flag_reads (_ # es) = flag_reads es"

fun examined :: "event list \<Rightarrow> pystr list" where
  "examined [] = []"
| "examined (Examine path # es) = path # examined es"
| "examined (_ # es) = examined es"

text \<open>The candidate files of a search: what the generator yields for the worker's pattern.\<close>

definition candidates :: "platform \<Rightarrow> pystr \<Rightarrow> pystr \<Rightarrow> bool \<Rightarrow> pystr list" where
  "candidates P folder ext recursive = fst (iter_files P folder (glob_pattern ext) recursive)"

section \<open>The window\<close>

datatype widget_state = NORMAL | DISABLED

text \<open>
  The texts of the status line, one constructor for each message the program sets:
  the prompt to enter folder and query, "searching...", "stop requested...",
  "results cleared", "search complete: no matching file", "search complete: n files",
  "in progress... n found so far" and "paths copied: n".
\<close>

datatype status =
    StatusPrompt
  | StatusSearching
  | StatusStopRequested
  | StatusCleared
  | StatusDoneNone
  | StatusDone nat
  | StatusProgress nat
  | StatusCopied nat

text \<open>The message boxes of \<open>_on_search_clicked\<close>.\<close>

datatype dialog = InfoAlreadySearching | ErrorInvalidFolder | ErrorEmptyQuery

text \<open>The entries of the settings dictionary that a search writes.\<close>

record settings =
  last_folder :: pystr
  last_query :: pystr
  last_extension :: pystr
  recursive :: bool
  case_sensitive :: bool
  folder_history_entry :: "pystr list"

text \<open>A worker thread: the arguments it was created with, and whether it is alive.\<close>

record thread =
  arg_folder :: pystr
  arg_query :: pystr
  arg_ext :: pystr
  arg_recursive :: bool
  arg_case_sensitive :: bool
  alive :: bool

text \<open>
  The state of \<open>FileSearchGUI\<close> that searching touches. \<open>threads\<close> holds every worker
  thread ever started, in the order of creation, and \<open>search_thread\<close> is the position
  of the one \<open>self.search_thread\<close> refers to (\<open>None\<close> before the first search).
  \<open>results\<close>, \<open>selection\<close>, \<open>active\<close> and \<open>results_focus\<close> are the list box.
\<close>

record app =
  folder_var :: pystr
  query_var :: pystr
  ext_var :: pystr
  recursive_var :: bool
  case_sensitive_var :: bool
  results :: "pystr list"
  selection :: "nat list"
  active :: "nat option"
  results_focus :: bool
  status_var :: status
  search_btn :: widget_state
  stop_btn :: widget_state
  stop_event :: bool
  result_queue :: "pystr list"
  threads :: "thread list"
  search_thread :: "nat option"
  folder_history :: "pystr list"
  folder_combo_values :: "pystr list"
  settings :: settings
  focus_results_after_search :: bool
  dialogs :: "dialog list"

definition update_folder_history :: "pystr \<Rightarrow> app \<Rightarrow> app" where
  "update_folder_history folder s =
     (let h1 = (if folder \<in> set (folder_history s) then remove1 folder (folder_history s)
                else folder_history s);
          h2 = folder # h1;
          h3 = take 15 h2
      in s\<lparr>folder_history := h3,
            folder_combo_values := h3,
            settings := (settings s)\<lparr>folder_history_entry := h3\<rparr>\<rparr>)"

definition on_stop_clicked :: "app \<Rightarrow> app" where
  "on_stop_clicked s = s\<lparr>stop_event := True, status_var := StatusStopRequested\<rparr>"

definition clear_results :: "app \<Rightarrow> app" where
  "clear_results s = s\<lparr>results := [], selection := [], status_var := StatusCleared\<rparr>"

text \<open>\<open>self.search_thread and self.search_thread.is_alive()\<close>.\<close>

definition search_thread_alive :: "app \<Rightarrow> bool" where
  "search_thread_alive s =
     (case search_thread s of
        None \<Rightarrow> False
      | Some i \<Rightarrow> i < length (threads s) \<and> alive (threads s ! i))"

definition on_search_clicked :: "platform \<Rightarrow> bool \<Rightarrow> app \<Rightarrow> app" where
  "on_search_clicked P from_query s =
     (if search_thread_alive s then s\<lparr>dialogs := dialogs s @ [InfoAlreadySearching]\<rparr>
      else
        let folder = strip (folder_var s);
            query = query_var s;
            ext = strip (ext_var s)
        in if folder = [] \<or> \<not> path_isdir P folder
             then s\<lparr>dialogs := dialogs s @ [ErrorInvalidFolder]\<rparr>
           else if query = [] then s\<lparr>dialogs := dialogs s @ [ErrorEmptyQuery]\<rparr>
           else
             let ext' = (if ext = [] then ustr ''.conf'' else ext);
                 s1 = (if ext = [] then s\<lparr>ext_var := ext'\<rparr> else s);
                 s2 = s1\<lparr>focus_results_after_search := from_query\<rparr>;
                 s3 = clear_results s2;
                 s4 = s3\<lparr>status_var := StatusSearching, search_btn := DISABLED,
                         stop_btn := NORMAL, stop_event := False\<rparr>;
                 s5 = update_folder_history folder s4;
                 s6 = s5\<lparr>settings := (settings s5)
                         \<lparr>last_folder := folder, last_query := query, last_extension := ext',
                          recursive := recursive_var s5,
                          case_sensitive := case_sensitive_var s5\<rparr>\<rparr>
             in s6\<lparr>threads := threads s6 @
                       [\<lparr>arg_folder = folder, arg_query = query, arg_ext = ext',
                         arg_recursive = recursive_var s6,
                         arg_case_sensitive = case_sensitive_var s6, alive = True\<rparr>],
                    search_thread := Some (length (threads s6))\<rparr>)"

text \<open>
  \<open>_on_query_enter\<close>, the Return key in the query entry, and \<open>_browse_folder\<close> with
  the folder the dialog returned (an empty string when it was cancelled).
\<close>

definition on_query_enter :: "platform \<Rightarrow> app \<Rightarrow> app" where
  "on_query_enter P s = on_search_clicked P True (s\<lparr>focus_results_after_search := True\<rparr>)"

definition browse_folder :: "pystr \<Rightarrow> app \<Rightarrow> app" where
  "browse_folder folder s =
     (if folder \<noteq> [] then
        update_folder_history folder
          (s\<lparr>folder_var := folder, settings := (settings s)\<lparr>last_folder := folder\<rparr>\<rparr>)
      else s)"

text \<open>The branch of \<open>_poll_queue\<close> for the sentinel.\<close>

definition on_sentinel :: "app \<Rightarrow> app" where
  "on_sentinel s =
     (let s1 = s\<lparr>search_btn := NORMAL, stop_btn := DISABLED\<rparr>;
          s2 = (if length (results s1) = 0 then s1\<lparr>status_var := StatusDoneNone\<rparr>
                else s1\<lparr>status_var := StatusDone (length (results s1))\<rparr>)
      in if focus_results_after_search s2 then
           (let s3 = s2\<lparr>results_focus := True\<rparr>;
                s4 = (if length (results s3) > 0
                      then s3\<lparr>selection := [0], active := Some 0\<rparr> else s3)
            in s4\<lparr>focus_results_after_search := False\<rparr>)
         else s2)"

text \<open>
  The \<open>while True\<close> loop of \<open>_poll_queue\<close> over the items \<open>get_nowait\<close> returns until
  the queue is empty, with the local \<open>updated\<close>.
\<close>

fun drain :: "pystr list \<Rightarrow> app \<times> bool \<Rightarrow> app \<times> bool" where
  "drain [] (s, updated) = (s, updated)"
| "drain (item # items) (s, updated) =
     (if item = SEARCH_DONE then drain items (on_sentinel s, updated)
      else drain items (s\<lparr>results := results s @ [item]\<rparr>, True))"

definition poll_queue :: "app \<Rightarrow> app" where
  "poll_queue s =
     (case drain (result_queue s) (s\<lparr>result_queue := []\<rparr>, False) of
        (s1, updated) \<Rightarrow>
          if updated then s1\<lparr>status_var := StatusProgress (length (results s1))\<rparr> else s1)"

text \<open>
  What can happen to the window between two moments: the user clicks search, stop or
  clear, presses Return in the query entry, picks a folder, edits the entries, selects
  results or copies the selected paths; the window closes (\<open>_cleanup\<close> sets the flag);
  the timer polls; a live worker puts an item on the queue; a worker thread ends.
\<close>

inductive step :: "platform \<Rightarrow> app \<Rightarrow> app \<Rightarrow> bool" for P :: platform where
  click_search: "step P s (on_search_clicked P from_query s)"
| click_stop: "step P s (on_stop_clicked s)"
| click_clear: "step P s (clear_results s)"
| query_enter: "step P s (on_query_enter P s)"
| browse: "step P s (browse_folder folder s)"
| select: "step P s (s\<lparr>selection := sel, active := a, results_focus := f\<rparr>)"
| copy: "selection s \<noteq> [] \<Longrightarrow>
     step P s (s\<lparr>status_var := StatusCopied (length (selection s))\<rparr>)"
| close: "step P s (s\<lparr>stop_event := True\<rparr>)"
| tick: "step P s (poll_queue s)"
| edit: "step P s (s\<lparr>folder_var := f, query_var := q, ext_var := e,
                      recursive_var := r, case_sensitive_var := c\<rparr>)"
| worker_put: "i < length (threads s) \<Longrightarrow> alive (threads s ! i) \<Longrightarrow>
     step P s (s\<lparr>result_queue := result_queue s @ [item]\<rparr>)"
| worker_exit: "i < length (threads s) \<Longrightarrow>
     step P s (s\<lparr>threads := (threads s)[i := (threads s ! i)\<lparr>alive := False\<rparr>]\<rparr>)"

text \<open>After \<open>__init__\<close> no worker thread exists.\<close>

inductive reachable :: "platform \<Rightarrow> app \<Rightarrow> bool" for P :: platform where
  init: "threads s = [] \<Longrightarrow> search_thread s = None \<Longrightarrow> reachable P s"
| next_state: "reachable P s \<Longrightarrow> step P s s' \<Longrightarrow> reachable P s'"

text \<open>
  The invariant behind the check of \<open>_on_search_clicked\<close>: a thread that is alive is
  the one \<open>self.search_thread\<close> refers to.
\<close>

definition owner_only :: "app \<Rightarrow> bool" where
  "owner_only s \<longleftrightarrow>
     (\<forall>i < length (threads s). alive (threads s ! i) \<longrightarrow> search_thread s = Some i)"

section \<open>A small installation\<close>

text \<open>
  A platform and a window to run the program on: the folder \<open>/srv\<close> holds \<open>a.conf\<close>,
  \<open>b.txt\<close> and \<open>c.conf\<close>, paths are joined with \<open>/\<close>, names are compared as they
  are written, and all text is ASCII, where \<open>str.lower\<close> is \<open>ascii_lower\<close>. The window
  has \<open>/srv\<close> as its folder, \<open>Config\<close> as its query and a blank extension entry.
\<close>

definition example_platform :: platform where
  "example_platform =
     \<lparr>open_text = (\<lambda>path enc.
          if path = ustr ''/srv/a.conf'' then ReadAll [ustr ''Name=Config'' @ [ch_lf]]
          else if path = ustr ''/srv/c.conf'' then ReadAll [ustr ''port=1'' @ [ch_lf]]
          else OpenRaises),
       str_lower = ascii_lower,
       os_walk = (\<lambda>folder.
          if folder = ustr ''/srv''
          then [(ustr ''/srv'', [ustr ''a.conf'', ustr ''b.txt'', ustr ''c.conf''])] else []),
       os_listdir = (\<lambda>folder.
          if folder = ustr ''/srv'' then Names [ustr ''a.conf'', ustr ''b.txt'', ustr ''c.conf'']
          else OtherError),
       path_isfile = (\<lambda>path. path \<in> set [ustr ''/srv/a.conf'', ustr ''/srv/b.txt'', ustr ''/srv/c.conf'']),
       path_isdir = (\<lambda>path. path = ustr ''/srv''),
       path_join = (\<lambda>a b. a @ ustr ''/'' @ b),
       path_normcase = (\<lambda>s. s),
       re_set = (\<lambda>body c. c \<in> set body)\<rparr>"

definition example_app :: app where
  "example_app =
     \<lparr>folder_var = ustr ''/srv'', query_var = ustr ''Config'', ext_var = ustr '' '',
       recursive_var = True, case_sensitive_var = False,
       results = [], selection = [], active = None, results_focus = False,
       status_var = StatusPrompt, search_btn = NORMAL, stop_btn = DISABLED,
       stop_event = False, result_queue = [], threads = [], search_thread = None,
       folder_history = [ustr ''/srv'', ustr ''/opt''],
       folder_combo_values = [ustr ''/srv'', ustr ''/opt''],
       settings = \<lparr>last_folder = ustr ''/srv'', last_query = [], last_extension = ustr ''.conf'',
                    recursive = True, case_sensitive = False,
                    folder_history_entry = [ustr ''/srv'', ustr ''/opt'']\<rparr>,
       focus_results_after_search = False, dialogs = []\<rparr>"

text \<open>
  The example window after a click on search, while its worker runs; and the same
  window at the moment the worker has put its one match and the sentinel and the timer
  has not fired yet.
\<close>

definition searching_app :: app where
  "searching_app = on_search_clicked example_platform False example_app"

definition finishing_app :: app where
  "finishing_app = searching_app\<lparr>result_queue := [ustr ''/srv/a.conf'', SEARCH_DONE]\<rparr>"

text \<open>
  A file in a Korean code page. The word of the example is the two Hangul syllables
  U+C124 U+C815 ("setting"); cp949 and euc-kr both write it as the bytes BC B3 C1 A4.
  \<open>korean_fragment\<close> agrees with the runtime's decoders of the two code pages on
  texts made of ASCII and these two syllables, which is all the example reads.
\<close>

fun cp949_units :: "nat list \<Rightarrow> pystr" where
  "cp949_units [] = []"
| "cp949_units [b] = (if b < 128 then [b] else [ch_replacement])"
| "cp949_units (b # b1 # bs) =
     (if b < 128 then b # cp949_units (b1 # bs)
      else if b = 188 \<and> b1 = 179 then 49444 # cp949_units bs
      else if b = 193 \<and> b1 = 164 then 51221 # cp949_units bs
      else ch_replacement # cp949_units (b1 # bs))"

definition korean_fragment :: "encoding \<Rightarrow> byte list \<Rightarrow> pystr" where
  "korean_fragment enc bs = cp949_units (map unat bs)"

definition seoljeong_bytes :: "byte list" where
  "seoljeong_bytes = [0xBC, 0xB3, 0xC1, 0xA4, 0x0A]"

definition seoljeong :: pystr where
  "seoljeong = [49444, 51221]"

text \<open>
  The example platform with \<open>/srv/kr.conf\<close> as its only file, holding these bytes.
  Hangul syllables and U+FFFD have no case: \<open>str.lower\<close> leaves them as they are, as
  \<open>ascii_lower\<close> does.
\<close>

definition korean_platform :: platform where
  "korean_platform = example_platform
     \<lparr>open_text := open_bytes korean_fragment
        (\<lambda>path. if path = ustr ''/srv/kr.conf'' then Some seoljeong_bytes else None)\<rparr>"

section \<open>Strings and the extension\<close>

lemma ustr_Nil: "ustr [] = []" by (simp add: ustr_def)

lemma ustr_Cons: "ustr (c # s) = of_char c # ustr s" by (simp add: ustr_def)

lemma str_in_sublist: "str_in q l \<longleftrightarrow> sublist q l"
  by (induction l) (auto simp: sublist_Cons_right)

lemma sublist_map_mono: "sublist q l \<Longrightarrow> sublist (map f q) (map f l)"
proof -
  assume "sublist q l"
  then obtain ps ss where "l = ps @ q @ ss" by (auto simp: sublist_def)
  then have "map f l = map f ps @ map f q @ map f ss" by simp
  then show ?thesis unfolding sublist_def by blast
qed

lemma strip_spaces: "\<forall>c \<in> set raw. is_space c \<Longrightarrow> strip raw = []"
proof -
  assume a: "\<forall>c \<in> set raw. is_space c"
  then have inner: "dropWhile is_space raw = []" by (induction raw) auto
  show ?thesis unfolding strip_def inner by simp
qed

lemma strip_srv: "strip (ustr ''/srv'') = ustr ''/srv''"
  by (simp add: strip_def ustr_Nil ustr_Cons is_space_def)

lemma glob_conf: "glob_pattern (ustr ''conf'') = ustr ''*.conf''"
  by (simp add: glob_pattern_def normalized_ext_def ustr_Nil ustr_Cons)

lemma glob_dotconf: "glob_pattern (ustr ''.conf'') = ustr ''*.conf''"
  by (simp add: glob_pattern_def normalized_ext_def ustr_Nil ustr_Cons)

lemma glob_startxt: "glob_pattern (ustr ''*.txt'') = ustr ''*.txt''"
  by (simp add: glob_pattern_def normalized_ext_def ustr_Nil ustr_Cons)

lemma glob_pattern_wild: "ch_star \<in> set ext \<or> ch_qmark \<in> set ext \<Longrightarrow> glob_pattern ext = ext"
  by (auto simp add: glob_pattern_def normalized_ext_def ustr_Nil ustr_Cons Let_def)

lemma glob_pattern_plain:
  "ch_star \<notin> set ext \<Longrightarrow> ch_qmark \<notin> set ext \<Longrightarrow>
   glob_pattern ext = (if prefix [ch_dot] ext then ch_star # ext else ch_star # ch_dot # ext)"
  by (auto simp add: glob_pattern_def normalized_ext_def ustr_Nil ustr_Cons Let_def)

lemma on_search_clicked_blank_ext:
  assumes "\<forall>c \<in> set (ext_var s). is_space c" "\<not> search_thread_alive s"
    "strip (folder_var s) \<noteq> []" "path_isdir P (strip (folder_var s))" "query_var s \<noteq> []"
  shows "ext_var (on_search_clicked P fq s) = ustr ''.conf''"
    and "threads (on_search_clicked P fq s) = threads s @
           [\<lparr>arg_folder = strip (folder_var s), arg_query = query_var s, arg_ext = ustr ''.conf'',
             arg_recursive = recursive_var s, arg_case_sensitive = case_sensitive_var s,
             alive = True\<rparr>]"
  using assms strip_spaces [OF assms(1)]
  by (simp_all add: on_search_clicked_def Let_def update_folder_history_def clear_results_def)

text \<open>
  Claim C4. The glob pattern of an extension: \<open>conf\<close> and \<open>.conf\<close> both give \<open>*.conf\<close>;
  an extension that holds \<open>*\<close> or \<open>?\<close>, such as \<open>*.txt\<close>, is the pattern as it stands;
  an extension without them gets a leading dot when it has none and then a leading
  \<open>*\<close>. When a search starts from an extension entry that is empty or all white space,
  the entry is set to \<open>.conf\<close>, the worker is created with \<open>.conf\<close>, and its pattern
  is \<open>*.conf\<close>.
\<close>

theorem glob_pattern_normalization:
  "glob_pattern (ustr ''conf'') = ustr ''*.conf'' \<and>
   glob_pattern (ustr ''.conf'') = ustr ''*.conf'' \<and>
   glob_pattern (ustr ''*.txt'') = ustr ''*.txt'' \<and>
   (ch_star \<in> set ext \<or> ch_qmark \<in> set ext \<longrightarrow> glob_pattern ext = ext) \<and>
   (ch_star \<notin> set ext \<and> ch_qmark \<notin> set ext \<longrightarrow>
      glob_pattern ext = (if prefix (ustr ''.'') ext then ustr ''*'' @ ext else ustr ''*.'' @ ext)) \<and>
   ((\<forall>c \<in> set (ext_var s). is_space c) \<and> \<not> search_thread_alive s \<and>
    strip (folder_var s) \<noteq> [] \<and> path_isdir P (strip (folder_var s)) \<and> query_var s \<noteq> [] \<longrightarrow>
      ext_var (on_search_clicked P fq s) = ustr ''.conf'' \<and>
      threads (on_search_clicked P fq s) = threads s @
        [\<lparr>arg_folder = strip (folder_var s), arg_query = query_var s, arg_ext = ustr ''.conf'',
          arg_recursive = recursive_var s, arg_case_sensitive = case_sensitive_var s,
          alive = True\<rparr>] \<and>
      glob_pattern (arg_ext (last (threads (on_search_clicked P fq s)))) = ustr ''*.conf'')"
proof (intro conjI impI)
  show "glob_pattern (ustr ''conf'') = ustr ''*.conf''" by (rule glob_conf)
  show "glob_pattern (ustr ''.conf'') = ustr ''*.conf''" by (rule glob_dotconf)
  show "glob_pattern (ustr ''*.txt'') = ustr ''*.txt''" by (rule glob_startxt)
  show "glob_pattern ext = ext" if "ch_star \<in> set ext \<or> ch_qmark \<in> set ext"
    using that by (rule glob_pattern_wild)
  show "glob_pattern ext = (if prefix (ustr ''.'') ext then ustr ''*'' @ ext else ustr ''*.'' @ ext)"
    if "ch_star \<notin> set ext \<and> ch_qmark \<notin> set ext"
    using that glob_pattern_plain [of ext] by (simp add: ustr_Nil ustr_Cons)
next
  assume h: "(\<forall>c \<in> set (ext_var s). is_space c) \<and> \<not> search_thread_alive s \<and>
    strip (folder_var s) \<noteq> [] \<and> path_isdir P (strip (folder_var s)) \<and> query_var s \<noteq> []"
  then have a: "\<forall>c \<in> set (ext_var s). is_space c" "\<not> search_thread_alive s"
    "strip (folder_var s) \<noteq> []" "path_isdir P (strip (folder_var s))" "query_var s \<noteq> []"
    by blast+
  show "ext_var (on_search_clicked P fq s) = ustr ''.conf''"
    by (rule on_search_clicked_blank_ext(1) [OF a])
  show thr: "threads (on_search_clicked P fq s) = threads s @
        [\<lparr>arg_folder = strip (folder_var s), arg_query = query_var s, arg_ext = ustr ''.conf'',
          arg_recursive = recursive_var s, arg_case_sensitive = case_sensitive_var s,
          alive = True\<rparr>]"
    by (rule on_search_clicked_blank_ext(2) [OF a])
  show "glob_pattern (arg_ext (last (threads (on_search_clicked P fq s)))) = ustr ''*.conf''"
    by (simp add: thr glob_dotconf)
qed

text \<open>
  The theorem at \<open>a?.c*\<close>, which holds wildcards, at \<open>ini\<close>, which holds none, and at a
  search started in the example window, whose extension entry is one space.
\<close>

theorem glob_pattern_normalization_witness:
  "(ch_star \<in> set (ustr ''a?.c*'') \<or> ch_qmark \<in> set (ustr ''a?.c*'')) \<and>
   glob_pattern (ustr ''a?.c*'') = ustr ''a?.c*'' \<and>
   ch_star \<notin> set (ustr ''ini'') \<and> ch_qmark \<notin> set (ustr ''ini'') \<and>
   glob_pattern (ustr ''ini'') = ustr ''*.ini'' \<and>
   ext_var example_app = ustr '' '' \<and> \<not> search_thread_alive example_app \<and>
   strip (folder_var example_app) \<noteq> [] \<and> path_isdir example_platform (strip (folder_var example_app)) \<and>
   query_var example_app \<noteq> [] \<and>
   ext_var (on_search_clicked example_platform False example_app) = ustr ''.conf'' \<and>
   glob_pattern (arg_ext (last (threads (on_search_clicked example_platform False example_app))))
     = ustr ''*.conf''"
proof -
  have w: "ch_star \<in> set (ustr ''a?.c*'') \<or> ch_qmark \<in> set (ustr ''a?.c*'')"
    by (simp add: ustr_Nil ustr_Cons)
  have p: "ch_star \<notin> set (ustr ''ini'') \<and> ch_qmark \<notin> set (ustr ''ini'')"
    by (simp add: ustr_Nil ustr_Cons)
  have e: "(\<forall>c \<in> set (ext_var example_app). is_space c) \<and> \<not> search_thread_alive example_app \<and>
   strip (folder_var example_app) \<noteq> [] \<and> path_isdir example_platform (strip (folder_var example_app)) \<and>
   query_var example_app \<noteq> []"
    by (simp add: example_app_def example_platform_def search_thread_alive_def strip_srv)
       (simp add: ustr_Nil ustr_Cons is_space_def)
  from w glob_pattern_normalization [of "ustr ''a?.c*''" example_app example_platform False]
  have 1: "glob_pattern (ustr ''a?.c*'') = ustr ''a?.c*''" by blast
  from p glob_pattern_normalization [of "ustr ''ini''" example_app example_platform False]
  have 2: "glob_pattern (ustr ''ini'') = ustr ''*.ini''" by (simp add: ustr_Nil ustr_Cons)
  from e glob_pattern_normalization [of "ustr ''ini''" example_app example_platform False]
  have 3: "ext_var (on_search_clicked example_platform False example_app) = ustr ''.conf'' \<and>
   glob_pattern (arg_ext (last (threads (on_search_clicked example_platform False example_app))))
     = ustr ''*.conf''" by blast
  have x: "ext_var example_app = ustr '' ''" by (simp add: example_app_def)
  from w p e x 1 2 3 show ?thesis by blast
qed

section \<open>The folder history\<close>

lemma ufh_hd: "folder_history (update_folder_history folder s) ! 0 = folder"
  by (simp add: update_folder_history_def Let_def)

lemma ufh_len: "length (folder_history (update_folder_history folder s)) \<le> 15"
  by (simp add: update_folder_history_def Let_def)

lemma ufh_distinct: "distinct (folder_history s) \<Longrightarrow> distinct (folder_history (update_folder_history folder s))"
  by (auto simp add: update_folder_history_def Let_def dest: in_set_takeD)

text \<open>
  Claim C10. After \<open>_update_folder_history(folder)\<close> the history has \<open>folder\<close> at
  index 0, has no duplicates if it had none before, and has at most 15 entries; the
  values of the combo box and the settings entry \<open>folder_history\<close> equal the history.
\<close>

theorem update_folder_history_spec:
  "folder_history (update_folder_history folder s) ! 0 = folder \<and>
   (distinct (folder_history s) \<longrightarrow> distinct (folder_history (update_folder_history folder s))) \<and>
   length (folder_history (update_folder_history folder s)) \<le> 15 \<and>
   folder_combo_values (update_folder_history folder s) = folder_history (update_folder_history folder s) \<and>
   folder_history_entry (settings (update_folder_history folder s))
     = folder_history (update_folder_history folder s)"
  using ufh_hd [of folder s] ufh_len [of folder s] ufh_distinct [of s folder]
  by (simp add: update_folder_history_def Let_def)

text \<open>The example window has \<open>/srv\<close> and \<open>/opt\<close> in its history; \<open>/opt\<close> moves to the front.\<close>

theorem update_folder_history_spec_witness:
  "distinct (folder_history example_app) \<and>
   folder_history (update_folder_history (ustr ''/opt'') example_app) = [ustr ''/opt'', ustr ''/srv''] \<and>
   distinct (folder_history (update_folder_history (ustr ''/opt'') example_app))"
proof -
  have d: "distinct (folder_history example_app)"
    by (simp add: example_app_def ustr_Nil ustr_Cons)
  have v: "folder_history (update_folder_history (ustr ''/opt'') example_app) = [ustr ''/opt'', ustr ''/srv'']"
    by (simp add: example_app_def update_folder_history_def Let_def ustr_Nil ustr_Cons)
  from d update_folder_history_spec [of "ustr ''/opt''" example_app] v show ?thesis by blast
qed

section \<open>Names: the glob and the suffix test\<close>

lemma translate_from_literal:
  "\<forall>c \<in> set s. c \<noteq> ch_star \<and> c \<noteq> ch_qmark \<and> c \<noteq> ch_lbracket \<Longrightarrow>
   translate_from 0 s = map Literal s"
  by (induction s) auto

lemma translate_star_literal:
  assumes "\<forall>c \<in> set s. c \<noteq> ch_star \<and> c \<noteq> ch_qmark \<and> c \<noteq> ch_lbracket"
  shows "translate (ch_star # s) = STAR # map Literal s"
  using translate_from_literal [OF assms] by (cases s) (simp_all add: translate_def)

lemma translate_from_drop: "translate_from k s = translate_from 0 (drop k s)"
proof (induction k arbitrary: s)
  case 0
  then show ?case by simp
next
  case (Suc k)
  then show ?case by (cases s) simp_all
qed

lemma glob_match_literals: "glob_match P (map Literal s) name \<longleftrightarrow> name = s"
  by (induction s arbitrary: name) (auto split: list.splits)

lemma glob_match_star_literals: "glob_match P (STAR # map Literal s) name \<longleftrightarrow> suffix s name"
  by (induction name) (auto simp: glob_match_literals suffix_Cons)

lemma fnmatchcase_star_literal:
  assumes "\<forall>c \<in> set s. c \<noteq> ch_star \<and> c \<noteq> ch_qmark \<and> c \<noteq> ch_lbracket"
  shows "fnmatchcase P name (ch_star # s) \<longleftrightarrow> suffix s name"
  unfolding fnmatchcase_def translate_star_literal [OF assms] by (rule glob_match_star_literals)

lemma name_matches_suffix:
  assumes "\<forall>c \<in> set e. c \<noteq> ch_star \<and> c \<noteq> ch_qmark \<and> c \<noteq> ch_lbracket"
    and "path_normcase P = (\<lambda>s. s)"
  shows "fnmatch P name (ch_star # ch_dot # e) \<longleftrightarrow> suffix (ch_dot # e) name"
    and "name_matches P name (ch_star # ch_dot # e) \<longleftrightarrow> suffix (ch_dot # e) name"
proof -
  from assms(1) have lit: "\<forall>c \<in> set (ch_dot # e). c \<noteq> ch_star \<and> c \<noteq> ch_qmark \<and> c \<noteq> ch_lbracket"
    by simp
  show fn: "fnmatch P name (ch_star # ch_dot # e) \<longleftrightarrow> suffix (ch_dot # e) name"
    using assms(2) fnmatchcase_star_literal [OF lit, of P name] by (simp add: fnmatch_def)
  show "name_matches P name (ch_star # ch_dot # e) \<longleftrightarrow> suffix (ch_dot # e) name"
    unfolding name_matches_def fn by (auto simp: ustr_Nil ustr_Cons)
qed

text \<open>
  Claim C8. For a pattern \<open>*.ext\<close> whose \<open>ext\<close> is literal text, that is, holds none of
  the characters \<open>*\<close>, \<open>?\<close> and \<open>[\<close> that \<open>fnmatch\<close> reads as wildcards, and with names
  compared as they are written (\<open>os.path.normcase\<close> is the identity, as on POSIX), the
  test of \<open>_iter_files\<close> (glob match or suffix comparison) accepts exactly the names
  the glob match accepts alone: the suffix comparison admits no further name. Both
  accept the names that end in \<open>.ext\<close>.
\<close>

theorem suffix_test_redundant:
  "(\<forall>c \<in> set e. c \<noteq> ch_star \<and> c \<noteq> ch_qmark \<and> c \<noteq> ch_lbracket) \<and>
   path_normcase P = (\<lambda>s. s) \<longrightarrow>
     (name_matches P name (ustr ''*.'' @ e) \<longleftrightarrow> fnmatch P name (ustr ''*.'' @ e)) \<and>
     (suffix (drop 1 (ustr ''*.'' @ e)) name \<longrightarrow> fnmatch P name (ustr ''*.'' @ e)) \<and>
     (fnmatch P name (ustr ''*.'' @ e) \<longleftrightarrow> suffix (ustr ''.'' @ e) name)"
proof (intro impI)
  assume h: "(\<forall>c \<in> set e. c \<noteq> ch_star \<and> c \<noteq> ch_qmark \<and> c \<noteq> ch_lbracket) \<and>
   path_normcase P = (\<lambda>s. s)"
  then have lit: "\<forall>c \<in> set (ch_dot # e). c \<noteq> ch_star \<and> c \<noteq> ch_qmark \<and> c \<noteq> ch_lbracket"
    by simp
  have pat: "ustr ''*.'' @ e = ch_star # ch_dot # e" "ustr ''.'' @ e = ch_dot # e"
    by (simp_all add: ustr_Nil ustr_Cons)
  have fn: "fnmatch P name (ustr ''*.'' @ e) \<longleftrightarrow> suffix (ch_dot # e) name"
    using h fnmatchcase_star_literal [OF lit, of P name] by (simp add: fnmatch_def pat)
  show "(name_matches P name (ustr ''*.'' @ e) \<longleftrightarrow> fnmatch P name (ustr ''*.'' @ e)) \<and>
     (suffix (drop 1 (ustr ''*.'' @ e)) name \<longrightarrow> fnmatch P name (ustr ''*.'' @ e)) \<and>
     (fnmatch P name (ustr ''*.'' @ e) \<longleftrightarrow> suffix (ustr ''.'' @ e) name)"
    unfolding name_matches_def fn by (auto simp: pat)
qed

lemma example_names:
  "name_matches example_platform (ustr ''a.conf'') (ustr ''*.conf'')"
  "\<not> name_matches example_platform (ustr ''b.txt'') (ustr ''*.conf'')"
  "name_matches example_platform (ustr ''c.conf'') (ustr ''*.conf'')"
proof -
  have lit: "\<forall>c \<in> set (ustr ''conf''). c \<noteq> ch_star \<and> c \<noteq> ch_qmark \<and> c \<noteq> ch_lbracket"
    by (simp add: ustr_Nil ustr_Cons)
  have id: "path_normcase example_platform = (\<lambda>s. s)" by (simp add: example_platform_def)
  have p: "ustr ''*.conf'' = ch_star # ch_dot # ustr ''conf''" by (simp add: ustr_Nil ustr_Cons)
  show "name_matches example_platform (ustr ''a.conf'') (ustr ''*.conf'')"
    unfolding p name_matches_suffix(2) [OF lit id] by (simp add: ustr_Nil ustr_Cons suffix_def)
  show "\<not> name_matches example_platform (ustr ''b.txt'') (ustr ''*.conf'')"
    unfolding p name_matches_suffix(2) [OF lit id] by (simp add: ustr_Nil ustr_Cons suffix_def)
  show "name_matches example_platform (ustr ''c.conf'') (ustr ''*.conf'')"
    unfolding p name_matches_suffix(2) [OF lit id] by (simp add: ustr_Nil ustr_Cons suffix_def)
qed

text \<open>The theorem at \<open>*.conf\<close>, which accepts \<open>a.conf\<close> and refuses \<open>b.txt\<close> either way.\<close>

theorem suffix_test_redundant_witness:
  "path_normcase example_platform = (\<lambda>s. s) \<and>
   name_matches example_platform (ustr ''a.conf'') (ustr ''*.conf'') \<and>
   fnmatch example_platform (ustr ''a.conf'') (ustr ''*.conf'') \<and>
   \<not> name_matches example_platform (ustr ''b.txt'') (ustr ''*.conf'') \<and>
   \<not> fnmatch example_platform (ustr ''b.txt'') (ustr ''*.conf'')"
proof -
  have h: "(\<forall>c \<in> set (ustr ''conf''). c \<noteq> ch_star \<and> c \<noteq> ch_qmark \<and> c \<noteq> ch_lbracket) \<and>
     path_normcase example_platform = (\<lambda>s. s)"
    by (simp add: example_platform_def ustr_Nil ustr_Cons)
  have p: "ustr ''*.'' @ ustr ''conf'' = ustr ''*.conf''" "ustr ''.'' @ ustr ''conf'' = ustr ''.conf''"
    by (simp_all add: ustr_def)
  have s1: "suffix (ustr ''.conf'') (ustr ''a.conf'')"
    by (simp add: ustr_Nil ustr_Cons suffix_def)
  have s2: "\<not> suffix (ustr ''.conf'') (ustr ''b.txt'')"
    by (simp add: ustr_Nil ustr_Cons suffix_def)
  from h suffix_test_redundant [of "ustr ''conf''" example_platform "ustr ''a.conf''"] s1
  have a: "name_matches example_platform (ustr ''a.conf'') (ustr ''*.conf'') \<and>
     fnmatch example_platform (ustr ''a.conf'') (ustr ''*.conf'')"
    by (simp add: p)
  from h suffix_test_redundant [of "ustr ''conf''" example_platform "ustr ''b.txt''"] s2
  have b: "\<not> name_matches example_platform (ustr ''b.txt'') (ustr ''*.conf'') \<and>
     \<not> fnmatch example_platform (ustr ''b.txt'') (ustr ''*.conf'')"
    by (simp add: p)
  from h a b show ?thesis by blast
qed

text \<open>
  The condition on \<open>[\<close> is needed. The extension \<open>[ch]\<close> holds neither \<open>*\<close> nor \<open>?\<close>, so
  the worker makes the pattern \<open>*.[ch]\<close> of it; the glob reads a bracket expression
  and refuses the name \<open>x.[ch]\<close>, which the suffix comparison accepts.
\<close>

lemma bracket_ch: "bracket_body (ustr ''ch]'') = Some 2"
  by (simp add: bracket_body_def ustr_Nil ustr_Cons)

lemma translate_bracket: "translate (ustr ''*.[ch]'') = [STAR, Literal ch_dot, CharSet (ustr ''ch'')]"
proof -
  have "bracket_body [99, 104, ch_rbracket] = Some 2"
    using bracket_ch by (simp add: ustr_Nil ustr_Cons)
  then show ?thesis
    by (simp add: translate_def ustr_Nil ustr_Cons translate_from_drop [of 3])
qed

lemma suffix_test_admits_more_with_bracket:
  "path_normcase P = (\<lambda>s. s) \<Longrightarrow>
   name_matches P (ustr ''x.[ch]'') (ustr ''*.[ch]'') \<and>
   \<not> fnmatch P (ustr ''x.[ch]'') (ustr ''*.[ch]'')"
proof -
  assume id: "path_normcase P = (\<lambda>s. s)"
  have no: "\<not> glob_match P [STAR, Literal ch_dot, CharSet (ustr ''ch'')] (ustr ''x.[ch]'')"
    by (simp add: ustr_Nil ustr_Cons)
  have suf: "suffix (drop 1 (ustr ''*.[ch]'')) (ustr ''x.[ch]'')"
    by (simp add: ustr_Nil ustr_Cons suffix_def)
  have pre: "prefix (ustr ''*.'') (ustr ''*.[ch]'')"
    by (simp add: ustr_Nil ustr_Cons)
  show ?thesis
    using no suf pre id by (simp add: name_matches_def fnmatch_def fnmatchcase_def translate_bracket)
qed

section \<open>Matching the content of a file\<close>

lemma scan_lines_iff: "scan_lines hit ls \<longleftrightarrow> (\<exists>line \<in> set ls. hit line)"
  by (induction ls) auto

lemma line_test_cs: "line_test P query True line \<longleftrightarrow> sublist query line"
  by (simp add: line_test_def str_in_sublist)

lemma line_test_ci: "line_test P query False line \<longleftrightarrow> sublist (str_lower P query) (str_lower P line)"
  by (simp add: line_test_def str_in_sublist Let_def)

lemma file_contains_text_first:
  "open_text P path Utf8 = ReadAll ls \<Longrightarrow>
   file_contains_text P path query cs \<longleftrightarrow> (\<exists>line \<in> set ls. line_test P query cs line)"
  by (simp add: file_contains_text_def encodings_def try_encoding_def scan_lines_iff)

lemma try_encodings_all_raise:
  "\<forall>enc \<in> set encs. try_encoding P query cs (open_text P path enc) = None \<Longrightarrow>
   \<not> try_encodings P path query cs encs"
  by (induction encs) auto

lemma ascii_Config: "is_ascii (ustr ''Config'')" "ascii_lower (ustr ''Config'') = ustr ''config''"
  "is_ascii (ustr ''config'')" "ascii_lower (ustr ''config'') = ustr ''config''"
  by (simp_all add: is_ascii_def ascii_lower_def ascii_lower_char_def ustr_Nil ustr_Cons)

text \<open>
  Claim C6. For a file that opens under the first encoding with lines \<open>ls\<close>: with case
  sensitivity on, the file matches when the query is a substring of a line; with it
  off, when the lower-cased query is a substring of a lower-cased line. So a file with
  an ASCII line containing \<open>Config\<close> matches the query \<open>Config\<close> in both modes and the
  query \<open>config\<close> with case sensitivity off; and if no line contains \<open>config\<close> as
  written, it does not match \<open>config\<close> with case sensitivity on. (\<open>str.lower\<close> is
  \<open>ascii_lower\<close> on ASCII text.)
\<close>

theorem file_contains_text_case:
  assumes opened: "open_text P path Utf8 = ReadAll ls"
  shows "(file_contains_text P path query True \<longleftrightarrow> (\<exists>line \<in> set ls. sublist query line)) \<and>
         (file_contains_text P path query False \<longleftrightarrow>
            (\<exists>line \<in> set ls. sublist (str_lower P query) (str_lower P line))) \<and>
         ((\<forall>t. is_ascii t \<longrightarrow> str_lower P t = ascii_lower t) \<and>
          (\<exists>line \<in> set ls. is_ascii line \<and> sublist (ustr ''Config'') line) \<longrightarrow>
            file_contains_text P path (ustr ''Config'') True \<and>
            file_contains_text P path (ustr ''Config'') False \<and>
            file_contains_text P path (ustr ''config'') False \<and>
            ((\<forall>line \<in> set ls. \<not> sublist (ustr ''config'') line) \<longrightarrow>
               \<not> file_contains_text P path (ustr ''config'') True))"
proof (intro conjI impI)
  show cs: "file_contains_text P path query True \<longleftrightarrow> (\<exists>line \<in> set ls. sublist query line)" for query
    using file_contains_text_first [OF opened] by (simp add: line_test_cs)
  show ci: "file_contains_text P path query False \<longleftrightarrow>
      (\<exists>line \<in> set ls. sublist (str_lower P query) (str_lower P line))" for query
    using file_contains_text_first [OF opened] by (simp add: line_test_ci)
  assume h: "(\<forall>t. is_ascii t \<longrightarrow> str_lower P t = ascii_lower t) \<and>
          (\<exists>line \<in> set ls. is_ascii line \<and> sublist (ustr ''Config'') line)"
  then obtain line where line: "line \<in> set ls" "is_ascii line" "sublist (ustr ''Config'') line"
    by blast
  from h have low: "\<And>t. is_ascii t \<Longrightarrow> str_lower P t = ascii_lower t" by blast
  have lowered: "sublist (ustr ''config'') (str_lower P line)"
    using sublist_map_mono [OF line(3), of ascii_lower_char] low [OF line(2)]
    by (simp add: ascii_Config [unfolded ascii_lower_def] ascii_lower_def)
  show "file_contains_text P path (ustr ''Config'') True"
    using cs line by blast
  show "file_contains_text P path (ustr ''Config'') False"
    using ci line(1) lowered low [OF ascii_Config(1)] by (auto simp: ascii_Config)
  show "file_contains_text P path (ustr ''config'') False"
    using ci line(1) lowered low [OF ascii_Config(3)] by (auto simp: ascii_Config)
  assume "\<forall>line \<in> set ls. \<not> sublist (ustr ''config'') line"
  then show "\<not> file_contains_text P path (ustr ''config'') True"
    using cs by blast
qed

lemma example_open:
  "open_text example_platform (ustr ''/srv/a.conf'') Utf8 = ReadAll [ustr ''Name=Config'' @ [ch_lf]]"
  "open_text example_platform (ustr ''/srv/c.conf'') Utf8 = ReadAll [ustr ''port=1'' @ [ch_lf]]"
  "open_text example_platform (ustr ''/srv/gone.conf'') enc = OpenRaises"
  by (simp_all add: example_platform_def) (simp_all add: ustr_Nil ustr_Cons)

lemma example_lower: "str_lower example_platform = ascii_lower"
  by (simp add: example_platform_def)

lemma example_sublists:
  "is_ascii (ustr ''Name=Config'' @ [ch_lf])"
  "sublist (ustr ''Config'') (ustr ''Name=Config'' @ [ch_lf])"
  "\<not> sublist (ustr ''config'') (ustr ''Name=Config'' @ [ch_lf])"
  unfolding str_in_sublist [symmetric]
  by (simp_all add: is_ascii_def ustr_Nil ustr_Cons)

text \<open>The theorem at \<open>/srv/a.conf\<close> of the example, whose one line is \<open>Name=Config\<close>.\<close>

theorem file_contains_text_case_witness:
  "open_text example_platform (ustr ''/srv/a.conf'') Utf8 = ReadAll [ustr ''Name=Config'' @ [ch_lf]] \<and>
   str_lower example_platform = ascii_lower \<and>
   file_contains_text example_platform (ustr ''/srv/a.conf'') (ustr ''Config'') True \<and>
   file_contains_text example_platform (ustr ''/srv/a.conf'') (ustr ''Config'') False \<and>
   file_contains_text example_platform (ustr ''/srv/a.conf'') (ustr ''config'') False \<and>
   \<not> file_contains_text example_platform (ustr ''/srv/a.conf'') (ustr ''config'') True"
proof -
  have h1: "(\<forall>t. is_ascii t \<longrightarrow> str_lower example_platform t = ascii_lower t) \<and>
     (\<exists>line \<in> set [ustr ''Name=Config'' @ [ch_lf]]. is_ascii line \<and> sublist (ustr ''Config'') line)"
    using example_sublists by (simp add: example_lower)
  have h2: "\<forall>line \<in> set [ustr ''Name=Config'' @ [ch_lf]]. \<not> sublist (ustr ''config'') line"
    using example_sublists by simp
  from file_contains_text_case [OF example_open(1), of "ustr ''Config''"] h1 h2 example_open(1) example_lower
  show ?thesis by blast
qed

subsection \<open>Bytes in a legacy code page\<close>

lemma utf8_sample:
  "utf8_decode_replace [0xEC, 0x84, 0xA4, 0xEC, 0xA0, 0x95, 0x41, 0xE2, 0x82, 0x41, 0xF0, 0x9F,
                        0x98, 0x80, 0xED, 0xA0, 0x80, 0xC3]
     = [49444, 51221, 65, 65533, 65, 128512, 65533, 65533, 65533, 65533]"
  by (simp add: utf8_decode_replace_def is_continuation_def second_ok_def)

lemma utf8_seoljeong: "utf8_decode_replace seoljeong_bytes
    = [ch_replacement, ch_replacement, ch_replacement, ch_replacement, ch_lf]"
  by (simp add: seoljeong_bytes_def utf8_decode_replace_def is_continuation_def second_ok_def)

lemma strict_seoljeong: "utf8_decode_strict seoljeong_bytes = None"
  by (simp add: seoljeong_bytes_def utf8_decode_strict_def)

lemma cp949_seoljeong: "decode_replace korean_fragment Cp949 seoljeong_bytes = seoljeong @ [ch_lf]"
  by (simp add: decode_replace_def korean_fragment_def seoljeong_bytes_def seoljeong_def)

lemma lines_seoljeong:
  "text_lines (seoljeong @ [ch_lf]) = [seoljeong @ [ch_lf]]"
  "text_lines [ch_replacement, ch_replacement, ch_replacement, ch_replacement, ch_lf]
     = [[ch_replacement, ch_replacement, ch_replacement, ch_replacement, ch_lf]]"
  by (simp_all add: text_lines_def seoljeong_def)

lemma open_kr:
  "open_text korean_platform (ustr ''/srv/kr.conf'') Utf8
     = ReadAll [[ch_replacement, ch_replacement, ch_replacement, ch_replacement, ch_lf]]"
  by (simp add: korean_platform_def open_bytes_def decode_replace_def utf8_seoljeong lines_seoljeong)

text \<open>
  When the file can be opened, the first attempt never raises: the verdict is that of
  the UTF-8 text with replacement characters, whatever the decoders of the later
  encodings would make of the bytes.
\<close>

lemma file_contains_text_utf8_only:
  assumes "files path = Some bs"
  shows "file_contains_text (P\<lparr>open_text := open_bytes legacy files\<rparr>) path query cs \<longleftrightarrow>
     (\<exists>line \<in> set (text_lines (utf8_decode_replace bs)). line_test P query cs line)"
proof -
  have o: "open_text (P\<lparr>open_text := open_bytes legacy files\<rparr>) path Utf8
             = ReadAll (text_lines (utf8_decode_replace bs))"
    using assms by (simp add: open_bytes_def decode_replace_def)
  have l: "line_test (P\<lparr>open_text := open_bytes legacy files\<rparr>) query cs = line_test P query cs"
    by (simp add: line_test_def fun_eq_iff)
  show ?thesis using file_contains_text_first [OF o, of query cs] by (simp add: l)
qed

text \<open>
  Claim C1 says that a file whose bytes are not UTF-8 and that decodes under a later
  encoding of the list is matched on the text of that later encoding. The code does
  not do so. The bytes BC B3 C1 A4 0A are not UTF-8; under cp949 they are the line of
  the two syllables U+C124 U+C815, which contains the query of these two syllables;
  yet \<open>_file_contains_text\<close> answers no in both modes, because \<open>errors="replace"\<close>
  lets the UTF-8 attempt succeed with four U+FFFD and no later encoding is tried.
\<close>

theorem file_contains_text_legacy_bytes:
  "utf8_decode_strict seoljeong_bytes = None \<and>
   text_lines (decode_replace korean_fragment Cp949 seoljeong_bytes) = [seoljeong @ [ch_lf]] \<and>
   str_in seoljeong (seoljeong @ [ch_lf]) \<and>
   open_text korean_platform (ustr ''/srv/kr.conf'') Cp949 = ReadAll [seoljeong @ [ch_lf]] \<and>
   \<not> file_contains_text korean_platform (ustr ''/srv/kr.conf'') seoljeong True \<and>
   \<not> file_contains_text korean_platform (ustr ''/srv/kr.conf'') seoljeong False"
proof -
  have a: "text_lines (decode_replace korean_fragment Cp949 seoljeong_bytes) = [seoljeong @ [ch_lf]]"
    by (simp add: cp949_seoljeong lines_seoljeong)
  have b: "str_in seoljeong (seoljeong @ [ch_lf])"
    by (simp add: seoljeong_def)
  have c: "open_text korean_platform (ustr ''/srv/kr.conf'') Cp949 = ReadAll [seoljeong @ [ch_lf]]"
    by (simp add: korean_platform_def open_bytes_def a)
  have low: "str_lower korean_platform = ascii_lower"
    by (simp add: korean_platform_def example_platform_def)
  have d: "\<not> file_contains_text korean_platform (ustr ''/srv/kr.conf'') seoljeong True"
    using file_contains_text_first [OF open_kr, of seoljeong True]
    by (simp add: line_test_def seoljeong_def)
  have e: "\<not> file_contains_text korean_platform (ustr ''/srv/kr.conf'') seoljeong False"
    using file_contains_text_first [OF open_kr, of seoljeong False]
    by (simp add: line_test_def seoljeong_def low ascii_lower_def ascii_lower_char_def)
  from strict_seoljeong a b c d e show ?thesis by blast
qed

section \<open>The protocol of the worker\<close>

lemma puts_append: "puts (xs @ ys) = puts xs @ puts ys"
  by (induction xs rule: puts.induct) auto

lemma examined_append: "examined (xs @ ys) = examined xs @ examined ys"
  by (induction xs rule: examined.induct) auto

lemma flag_reads_append: "flag_reads (xs @ ys) = flag_reads xs + flag_reads ys"
  by (induction xs rule: flag_reads.induct) auto

lemma hit_events:
  "puts (case c of Some True \<Rightarrow> [Put p] | _ \<Rightarrow> []) = (if c = Some True then [p] else [])"
  "examined (case c of Some True \<Rightarrow> [Put p] | _ \<Rightarrow> []) = []"
  "flag_reads (case c of Some True \<Rightarrow> [Put p] | _ \<Rightarrow> []) = 0"
  by (auto split: option.splits bool.splits)

lemma worker_loop_prefix:
  "n \<le> length ps \<Longrightarrow> (\<forall>j<n. \<not> stop (k + j)) \<Longrightarrow> (n < length ps \<longrightarrow> stop (k + n)) \<Longrightarrow>
   puts (worker_loop c stop k ps) = filter (\<lambda>p. c p = Some True) (take n ps) \<and>
   examined (worker_loop c stop k ps) = take n ps \<and>
   flag_reads (worker_loop c stop k ps) = n + (if n < length ps then 1 else 0) \<and>
   (IsSet True \<in> set (worker_loop c stop k ps) \<longleftrightarrow> n < length ps)"
proof (induction ps arbitrary: k n)
  case Nil
  then show ?case by simp
next
  case (Cons p ps)
  show ?case
  proof (cases n)
    case 0
    with Cons.prems show ?thesis by simp
  next
    case (Suc m)
    with Cons.prems have nostop: "\<not> stop k" by force
    from Suc Cons.prems have m: "m \<le> length ps" "\<forall>j<m. \<not> stop (Suc k + j)"
      "m < length ps \<longrightarrow> stop (Suc k + m)"
      by auto
    note IH = Cons.IH [OF m]
    have notin: "IsSet True \<notin> set (case c p of Some True \<Rightarrow> [Put p] | _ \<Rightarrow> [])"
      by (auto split: option.splits bool.splits)
    show ?thesis
      using IH nostop Suc notin
      by (simp add: puts_append examined_append flag_reads_append hit_events)
  qed
qed

lemma stop_point:
  "\<exists>n \<le> length (ps :: 'a list). (\<forall>j<n. \<not> stop (k + j)) \<and> (n < length ps \<longrightarrow> stop (k + n))"
proof (induction ps arbitrary: k)
  case Nil
  then show ?case by simp
next
  case (Cons p ps)
  show ?case
  proof (cases "stop k")
    case True
    then show ?thesis by (intro exI [of _ 0]) simp
  next
    case False
    from Cons.IH [of "Suc k"] obtain n where n: "n \<le> length ps" "\<forall>j<n. \<not> stop (Suc k + j)"
      "n < length ps \<longrightarrow> stop (Suc k + n)" by blast
    have "\<forall>j<Suc n. \<not> stop (k + j)"
    proof (intro allI impI)
      fix j assume "j < Suc n"
      then show "\<not> stop (k + j)" using False n(2) by (cases j) auto
    qed
    with n show ?thesis by (intro exI [of _ "Suc n"]) simp
  qed
qed

lemma worker_loop_examine_guarded:
  "i < length (worker_loop c stop k ps) \<Longrightarrow> worker_loop c stop k ps ! i = Examine p \<Longrightarrow>
   0 < i \<and> worker_loop c stop k ps ! (i - 1) = IsSet False"
proof (induction ps arbitrary: k i)
  case Nil
  then show ?case by simp
next
  case (Cons q ps)
  show ?case
  proof (cases "stop k")
    case True
    with Cons.prems show ?thesis by simp
  next
    case False
    define X where "X = (case c q of Some True \<Rightarrow> [Put q] | _ \<Rightarrow> [])"
    define R where "R = worker_loop c stop (Suc k) ps"
    have tr: "worker_loop c stop k (q # ps) = IsSet False # Examine q # X @ R"
      using False by (simp add: X_def R_def)
    have X: "X = [] \<or> X = [Put q]" by (auto simp: X_def split: option.splits bool.splits)
    show ?thesis
    proof (cases i)
      case 0
      with Cons.prems tr show ?thesis by simp
    next
      case (Suc i1)
      show ?thesis
      proof (cases i1)
        case 0
        with Suc tr show ?thesis by simp
      next
        case (Suc i2)
        with \<open>i = Suc i1\<close> Cons.prems tr have at: "i2 < length (X @ R)" "(X @ R) ! i2 = Examine p"
          by auto
        have "length X \<le> i2"
        proof (rule ccontr)
          assume "\<not> length X \<le> i2"
          with X have "X = [Put q]" "i2 = 0" by auto
          with at show False by simp
        qed
        with at have r: "i2 - length X < length R" "R ! (i2 - length X) = Examine p"
          by (auto simp: nth_append)
        from Cons.IH [OF r [unfolded R_def]] have
          pos: "0 < i2 - length X" and prev: "R ! (i2 - length X - 1) = IsSet False"
          by (auto simp: R_def)
        from pos have "(X @ R) ! (i2 - 1) = R ! (i2 - length X - 1)"
          by (auto simp: nth_append)
        with prev pos Suc \<open>i = Suc i1\<close> tr show ?thesis
          by (cases i2) auto
      qed
    qed
  qed
qed

lemma worker_loop_stop_last:
  "i < length (worker_loop c stop k ps) \<Longrightarrow> worker_loop c stop k ps ! i = IsSet True \<Longrightarrow>
   Suc i = length (worker_loop c stop k ps)"
proof (induction ps arbitrary: k i)
  case Nil
  then show ?case by simp
next
  case (Cons q ps)
  show ?case
  proof (cases "stop k")
    case True
    with Cons.prems show ?thesis by simp
  next
    case False
    define X where "X = (case c q of Some True \<Rightarrow> [Put q] | _ \<Rightarrow> [])"
    define R where "R = worker_loop c stop (Suc k) ps"
    have tr: "worker_loop c stop k (q # ps) = (IsSet False # Examine q # X) @ R"
      using False by (simp add: X_def R_def)
    have X: "X = [] \<or> X = [Put q]" by (auto simp: X_def split: option.splits bool.splits)
    let ?H = "IsSet False # Examine q # X"
    have "length ?H \<le> i"
    proof (rule ccontr)
      assume "\<not> length ?H \<le> i"
      then have "i < length ?H" by simp
      then have "((IsSet False # Examine q # X) @ R) ! i = ?H ! i" by (simp only: nth_append if_True)
      with Cons.prems(2) tr have "?H ! i = IsSet True" by simp
      with \<open>i < length ?H\<close> X show False
        by (auto simp: nth_Cons split: nat.splits)
    qed
    then have "(?H @ R) ! i = R ! (i - length ?H)"
      by (simp only: nth_append) simp
    with Cons.prems(2) tr have r2: "R ! (i - length ?H) = IsSet True" by simp
    from Cons.prems(1) tr \<open>length ?H \<le> i\<close> have r1: "i - length ?H < length R" by simp
    note r = r1 r2
    from Cons.IH [OF r [unfolded R_def]] have "Suc (i - length ?H) = length R" by (simp add: R_def)
    with \<open>length ?H \<le> i\<close> tr show ?thesis by simp
  qed
qed

lemma run_worker_trace: "trace (run_worker c stop gen) = worker_loop c stop 0 (fst gen) @ [Put SEARCH_DONE]"
  by (simp add: run_worker_def Let_def)

lemma search_worker_trace:
  "trace (search_worker P stop folder query ext rec cs) =
     worker_loop (\<lambda>path. Some (file_contains_text P path query cs)) stop 0
       (candidates P folder ext rec) @ [Put SEARCH_DONE]"
  by (simp add: search_worker_def candidates_def run_worker_trace Let_def)

lemma worker_puts:
  assumes "n \<le> length ps" "\<forall>j<n. \<not> stop j" "n < length ps \<longrightarrow> stop n"
  shows "puts (worker_loop c stop 0 ps @ [Put SEARCH_DONE]) =
           filter (\<lambda>p. c p = Some True) (take n ps) @ [SEARCH_DONE]"
    and "examined (worker_loop c stop 0 ps @ [Put SEARCH_DONE]) = take n ps"
    and "flag_reads (worker_loop c stop 0 ps @ [Put SEARCH_DONE]) = n + (if n < length ps then 1 else 0)"
  using worker_loop_prefix [of n ps stop 0 c] assms
  by (simp_all add: puts_append examined_append flag_reads_append)

lemma count_sentinel:
  "SEARCH_DONE \<notin> set ps \<Longrightarrow> count_list (filter f (take n ps) @ [SEARCH_DONE]) SEARCH_DONE = 1"
proof -
  assume "SEARCH_DONE \<notin> set ps"
  then have "SEARCH_DONE \<notin> set (filter f (take n ps))" by (auto dest: in_set_takeD)
  then show ?thesis by (simp add: count_list_0_iff)
qed

lemma example_candidates:
  "candidates example_platform (ustr ''/srv'') (ustr ''conf'') True
     = [ustr ''/srv/a.conf'', ustr ''/srv/c.conf'']"
proof -
  have w: "os_walk example_platform (ustr ''/srv'')
            = [(ustr ''/srv'', [ustr ''a.conf'', ustr ''b.txt'', ustr ''c.conf''])]"
    by (simp add: example_platform_def)
  have j: "path_join example_platform (ustr ''/srv'') (ustr ''a.conf'') = ustr ''/srv/a.conf''"
    "path_join example_platform (ustr ''/srv'') (ustr ''c.conf'') = ustr ''/srv/c.conf''"
    by (simp_all add: example_platform_def ustr_def)
  show ?thesis
    by (simp add: candidates_def iter_files_def glob_conf w example_names j)
qed

lemma example_missing_folder:
  "os_listdir example_platform (ustr ''/none'') = OtherError"
  by (simp add: example_platform_def ustr_Nil ustr_Cons)

lemma example_contains:
  "file_contains_text example_platform (ustr ''/srv/a.conf'') (ustr ''Config'') False"
  "\<not> file_contains_text example_platform (ustr ''/srv/c.conf'') (ustr ''Config'') False"
  "\<not> file_contains_text example_platform (ustr ''/srv/a.conf'') (ustr ''port'') True"
  "file_contains_text example_platform (ustr ''/srv/c.conf'') (ustr ''port'') True"
  unfolding file_contains_text_first [OF example_open(1)] file_contains_text_first [OF example_open(2)]
  by (simp_all add: line_test_def example_lower ascii_lower_def ascii_lower_char_def
      ustr_Nil ustr_Cons)

lemma sentinel_not_candidate:
  "SEARCH_DONE \<notin> set [ustr ''/srv/a.conf'', ustr ''/srv/c.conf'']"
  by (simp add: SEARCH_DONE_def ustr_Nil ustr_Cons)

text \<open>
  Claim C7. If every encoding attempt on a file raises (in particular if every \<open>open\<close>
  raises), \<open>_file_contains_text\<close> returns false. In the worker, a file whose matching
  raises puts nothing and the loop goes on with the next file; when no cancellation is
  seen, every file is examined and exactly the files that match are put, before the
  sentinel.
\<close>

theorem matching_errors_skipped:
  "((\<forall>enc \<in> set encodings. try_encoding P query cs (open_text P path enc) = None) \<longrightarrow>
      \<not> file_contains_text P path query cs) \<and>
   ((\<forall>enc. open_text P path enc = OpenRaises) \<longrightarrow> \<not> file_contains_text P path query cs) \<and>
   (contains p = None \<and> \<not> stop k \<longrightarrow>
      worker_loop contains stop k (p # rest) =
        IsSet False # Examine p # worker_loop contains stop (Suc k) rest) \<and>
   ((\<forall>j. \<not> stop j) \<longrightarrow>
      examined (trace (run_worker contains stop (paths, gen_raises))) = paths \<and>
      puts (trace (run_worker contains stop (paths, gen_raises))) =
        filter (\<lambda>p. contains p = Some True) paths @ [SEARCH_DONE])"
proof -
  have 1: "\<not> file_contains_text P path query cs"
    if "\<forall>enc \<in> set encodings. try_encoding P query cs (open_text P path enc) = None"
    using that unfolding file_contains_text_def by (rule try_encodings_all_raise)
  have 2: "\<not> file_contains_text P path query cs" if "\<forall>enc. open_text P path enc = OpenRaises"
    using that by (intro 1) (simp add: try_encoding_def)
  have 3: "worker_loop contains stop k (p # rest) =
        IsSet False # Examine p # worker_loop contains stop (Suc k) rest"
    if "contains p = None \<and> \<not> stop k"
    using that by simp
  have 4: "examined (trace (run_worker contains stop (paths, gen_raises))) = paths \<and>
      puts (trace (run_worker contains stop (paths, gen_raises))) =
        filter (\<lambda>p. contains p = Some True) paths @ [SEARCH_DONE]"
    if "\<forall>j. \<not> stop j"
    using worker_puts(1,2) [of "length paths" paths stop contains] that
    by (simp add: run_worker_trace)
  from 1 2 3 4 show ?thesis by blast
qed

text \<open>
  The theorem at a file of the example that cannot be opened, and at a worker whose
  first file raises and whose second file matches.
\<close>

theorem matching_errors_skipped_witness:
  "open_text example_platform (ustr ''/srv/gone.conf'') Utf8 = OpenRaises \<and>
   \<not> file_contains_text example_platform (ustr ''/srv/gone.conf'') (ustr ''Config'') False \<and>
   worker_loop (\<lambda>p. if p = ustr ''bad'' then None else Some True) (\<lambda>k. False) 0
       [ustr ''bad'', ustr ''good'']
     = [IsSet False, Examine (ustr ''bad''), IsSet False, Examine (ustr ''good''), Put (ustr ''good'')] \<and>
   puts (trace (run_worker (\<lambda>p. if p = ustr ''bad'' then None else Some True) (\<lambda>k. False)
                  ([ustr ''bad'', ustr ''good''], False)))
     = [ustr ''good'', SEARCH_DONE]"
proof -
  let ?c = "\<lambda>p. if p = ustr ''bad'' then None else Some True"
  note inst = matching_errors_skipped [of example_platform "ustr ''Config''" False "ustr ''/srv/gone.conf''" ?c
                    "ustr ''bad''" "\<lambda>k. False" 0 "[ustr ''good'']" "[ustr ''bad'', ustr ''good'']" False]
  have h1: "\<forall>enc. open_text example_platform (ustr ''/srv/gone.conf'') enc = OpenRaises"
    by (simp add: example_open)
  have h1': "\<forall>enc \<in> set encodings.
      try_encoding example_platform (ustr ''Config'') False
        (open_text example_platform (ustr ''/srv/gone.conf'') enc) = None"
    by (simp add: example_open try_encoding_def)
  from h1 inst have a: "\<not> file_contains_text example_platform (ustr ''/srv/gone.conf'') (ustr ''Config'') False"
    by blast
  have h3: "?c (ustr ''bad'') = None \<and> \<not> (\<lambda>k. False) (0::nat)" by simp
  with inst have b: "worker_loop ?c (\<lambda>k. False) 0 [ustr ''bad'', ustr ''good''] =
        IsSet False # Examine (ustr ''bad'') # worker_loop ?c (\<lambda>k. False) (Suc 0) [ustr ''good'']"
    by blast
  have ne: "ustr ''good'' \<noteq> ustr ''bad''" by (simp add: ustr_Nil ustr_Cons)
  have h4: "\<forall>j. \<not> (\<lambda>k. False) (j::nat)" by simp
  with inst have c: "puts (trace (run_worker ?c (\<lambda>k. False) ([ustr ''bad'', ustr ''good''], False))) =
        filter (\<lambda>p. ?c p = Some True) [ustr ''bad'', ustr ''good''] @ [SEARCH_DONE]"
    by blast
  from a b c ne h1 show ?thesis by simp
qed

text \<open>
  Claim C2. Whatever the cancellation flag does and however the traversal ends, the
  puts of the worker are the matching files among the first \<open>n\<close> candidates, in the
  order of the traversal, followed by the sentinel, where \<open>n\<close> is the number of files
  reached before the flag was seen set (all of them if it never was). The sentinel is
  the last thing the worker does; no file path being the sentinel string, it is on the
  queue exactly once. When \<open>os.listdir\<close> raises another error than \<open>PermissionError\<close>,
  the worker ends with that exception and has put the sentinel alone.
\<close>

theorem search_worker_sentinel_last:
  "(\<exists>n \<le> length (candidates P folder ext rec).
      (\<forall>j<n. \<not> stop j) \<and> (n < length (candidates P folder ext rec) \<longrightarrow> stop n) \<and>
      puts (trace (search_worker P stop folder query ext rec cs)) =
        filter (\<lambda>path. file_contains_text P path query cs) (take n (candidates P folder ext rec))
        @ [SEARCH_DONE]) \<and>
   last (trace (search_worker P stop folder query ext rec cs)) = Put SEARCH_DONE \<and>
   (SEARCH_DONE \<notin> set (candidates P folder ext rec) \<longrightarrow>
      count_list (puts (trace (search_worker P stop folder query ext rec cs))) SEARCH_DONE = 1) \<and>
   (\<not> rec \<and> os_listdir P folder = OtherError \<longrightarrow>
      raised (search_worker P stop folder query ext rec cs) \<and>
      puts (trace (search_worker P stop folder query ext rec cs)) = [SEARCH_DONE])"
proof -
  let ?ps = "candidates P folder ext rec"
  let ?c = "\<lambda>path. Some (file_contains_text P path query cs)"
  let ?W = "search_worker P stop folder query ext rec cs"
  from stop_point [of ?ps stop 0] obtain n where
    n: "n \<le> length ?ps" "\<forall>j<n. \<not> stop j" "n < length ?ps \<longrightarrow> stop n" by auto
  have p: "puts (trace ?W) = filter (\<lambda>path. file_contains_text P path query cs) (take n ?ps) @ [SEARCH_DONE]"
    using worker_puts(1) [OF n, of ?c] by (simp add: search_worker_trace)
  have 1: "\<exists>n \<le> length ?ps. (\<forall>j<n. \<not> stop j) \<and> (n < length ?ps \<longrightarrow> stop n) \<and>
      puts (trace ?W) = filter (\<lambda>path. file_contains_text P path query cs) (take n ?ps) @ [SEARCH_DONE]"
    using n p by blast
  have 2: "last (trace ?W) = Put SEARCH_DONE" by (simp add: search_worker_trace)
  have 3: "count_list (puts (trace ?W)) SEARCH_DONE = 1" if "SEARCH_DONE \<notin> set ?ps"
    unfolding p using that by (rule count_sentinel)
  have 4: "raised ?W \<and> puts (trace ?W) = [SEARCH_DONE]" if "\<not> rec \<and> os_listdir P folder = OtherError"
    using that by (simp add: search_worker_def run_worker_def iter_files_def Let_def)
  from 1 2 3 4 show ?thesis by blast
qed

text \<open>
  The theorem at a recursive search of \<open>/srv\<close> for \<open>Config\<close>, which finds \<open>a.conf\<close>, and at
  a search of a folder that does not exist.
\<close>

theorem search_worker_sentinel_last_witness:
  "SEARCH_DONE \<notin> set (candidates example_platform (ustr ''/srv'') (ustr ''conf'') True) \<and>
   puts (trace (search_worker example_platform (\<lambda>k. False) (ustr ''/srv'') (ustr ''Config'')
                  (ustr ''conf'') True False))
     = [ustr ''/srv/a.conf'', SEARCH_DONE] \<and>
   count_list (puts (trace (search_worker example_platform (\<lambda>k. False) (ustr ''/srv'')
                  (ustr ''Config'') (ustr ''conf'') True False))) SEARCH_DONE = 1 \<and>
   os_listdir example_platform (ustr ''/none'') = OtherError \<and>
   raised (search_worker example_platform (\<lambda>k. False) (ustr ''/none'') (ustr ''Config'')
             (ustr ''conf'') False False) \<and>
   puts (trace (search_worker example_platform (\<lambda>k. False) (ustr ''/none'') (ustr ''Config'')
                  (ustr ''conf'') False False)) = [SEARCH_DONE]"
proof -
  let ?W = "search_worker example_platform (\<lambda>k. False) (ustr ''/srv'') (ustr ''Config'')
              (ustr ''conf'') True False"
  have h: "SEARCH_DONE \<notin> set (candidates example_platform (ustr ''/srv'') (ustr ''conf'') True)"
    unfolding example_candidates by (rule sentinel_not_candidate)
  have p: "puts (trace ?W) = [ustr ''/srv/a.conf'', SEARCH_DONE]"
    by (simp add: search_worker_trace example_candidates example_contains)
  from h search_worker_sentinel_last [of example_platform "ustr ''/srv''" "ustr ''conf''" True "\<lambda>k. False" "ustr ''Config''" False]
  have c: "count_list (puts (trace ?W)) SEARCH_DONE = 1" by blast
  from example_missing_folder
    search_worker_sentinel_last [of example_platform "ustr ''/none''" "ustr ''conf''" False "\<lambda>k. False" "ustr ''Config''" False]
  have r: "raised (search_worker example_platform (\<lambda>k. False) (ustr ''/none'') (ustr ''Config'')
             (ustr ''conf'') False False) \<and>
   puts (trace (search_worker example_platform (\<lambda>k. False) (ustr ''/none'') (ustr ''Config'')
                  (ustr ''conf'') False False)) = [SEARCH_DONE]" by blast
  from h p c example_missing_folder r show ?thesis by blast
qed

text \<open>
  Claim C3. Every call of \<open>_file_contains_text\<close> comes directly after a read of the
  flag that returned false, so the flag is read at least once per file examined. Once
  a read returns true, the only thing the worker still does is to put the sentinel. If
  the first read that returns true is read number \<open>n\<close>, with a candidate left, then the
  files examined are the first \<open>n\<close> candidates, the flag was read \<open>n + 1\<close> times, and the
  queue receives the matches among these \<open>n\<close> files followed by the sentinel. No file
  path being the sentinel string, the sentinel is on the queue exactly once.
\<close>

theorem search_worker_cancellation:
  "(\<forall>i p. i < length (trace (search_worker P stop folder query ext rec cs)) \<and>
          trace (search_worker P stop folder query ext rec cs) ! i = Examine p \<longrightarrow>
          0 < i \<and> trace (search_worker P stop folder query ext rec cs) ! (i - 1) = IsSet False) \<and>
   length (examined (trace (search_worker P stop folder query ext rec cs)))
     \<le> flag_reads (trace (search_worker P stop folder query ext rec cs)) \<and>
   (\<forall>i. i < length (trace (search_worker P stop folder query ext rec cs)) \<and>
        trace (search_worker P stop folder query ext rec cs) ! i = IsSet True \<longrightarrow>
        drop (Suc i) (trace (search_worker P stop folder query ext rec cs)) = [Put SEARCH_DONE]) \<and>
   (n < length (candidates P folder ext rec) \<and> stop n \<and> (\<forall>j<n. \<not> stop j) \<longrightarrow>
      examined (trace (search_worker P stop folder query ext rec cs))
        = take n (candidates P folder ext rec) \<and>
      flag_reads (trace (search_worker P stop folder query ext rec cs)) = n + 1 \<and>
      puts (trace (search_worker P stop folder query ext rec cs)) =
        filter (\<lambda>path. file_contains_text P path query cs) (take n (candidates P folder ext rec))
        @ [SEARCH_DONE]) \<and>
   (SEARCH_DONE \<notin> set (candidates P folder ext rec) \<longrightarrow>
      count_list (puts (trace (search_worker P stop folder query ext rec cs))) SEARCH_DONE = 1)"
proof -
  let ?ps = "candidates P folder ext rec"
  let ?c = "\<lambda>path. Some (file_contains_text P path query cs)"
  let ?B = "worker_loop ?c stop 0 ?ps"
  let ?T = "trace (search_worker P stop folder query ext rec cs)"
  have T: "?T = ?B @ [Put SEARCH_DONE]" by (rule search_worker_trace)
  have 1: "0 < i \<and> ?T ! (i - 1) = IsSet False" if "i < length ?T \<and> ?T ! i = Examine p" for i p
  proof -
    from that T have "i < length ?B" by (cases "i = length ?B") (auto simp: nth_append)
    moreover from this that T have "?B ! i = Examine p" by (simp add: nth_append)
    ultimately have "0 < i \<and> ?B ! (i - 1) = IsSet False"
      by (rule worker_loop_examine_guarded)
    with \<open>i < length ?B\<close> T show ?thesis by (simp add: nth_append)
  qed
  from stop_point [of ?ps stop 0] obtain m where
    m: "m \<le> length ?ps" "\<forall>j<m. \<not> stop j" "m < length ?ps \<longrightarrow> stop m" by auto
  have 2: "length (examined ?T) \<le> flag_reads ?T"
    using worker_puts(2,3) [OF m, of ?c] m(1) by (simp add: T)
  have 3: "drop (Suc i) ?T = [Put SEARCH_DONE]" if "i < length ?T \<and> ?T ! i = IsSet True" for i
  proof -
    from that T have "i < length ?B" by (cases "i = length ?B") (auto simp: nth_append)
    moreover from this that T have "?B ! i = IsSet True" by (simp add: nth_append)
    ultimately have "Suc i = length ?B" by (rule worker_loop_stop_last)
    then show ?thesis by (simp add: T)
  qed
  have 4: "examined ?T = take n ?ps \<and> flag_reads ?T = n + 1 \<and>
      puts ?T = filter (\<lambda>path. file_contains_text P path query cs) (take n ?ps) @ [SEARCH_DONE]"
    if h: "n < length ?ps \<and> stop n \<and> (\<forall>j<n. \<not> stop j)"
  proof -
    from h have a: "n \<le> length ?ps" "\<forall>j<n. \<not> stop j" "n < length ?ps \<longrightarrow> stop n" by auto
    from worker_puts [OF a, of ?c] h show ?thesis by (simp add: T)
  qed
  have 5: "count_list (puts ?T) SEARCH_DONE = 1" if "SEARCH_DONE \<notin> set ?ps"
  proof -
    have p: "puts ?T = filter (\<lambda>path. file_contains_text P path query cs) (take m ?ps) @ [SEARCH_DONE]"
      using worker_puts(1) [OF m, of ?c] by (simp add: T)
    show ?thesis unfolding p using that by (rule count_sentinel)
  qed
  from 1 2 3 4 5 show ?thesis by blast
qed

text \<open>
  The theorem at a search of \<open>/srv\<close> for \<open>port\<close> cancelled before the second file:
  \<open>c.conf\<close> would match and is not reported.
\<close>

theorem search_worker_cancellation_witness:
  "candidates example_platform (ustr ''/srv'') (ustr ''conf'') True
     = [ustr ''/srv/a.conf'', ustr ''/srv/c.conf''] \<and>
   file_contains_text example_platform (ustr ''/srv/c.conf'') (ustr ''port'') True \<and>
   examined (trace (search_worker example_platform (\<lambda>k. 0 < k) (ustr ''/srv'') (ustr ''port'')
                      (ustr ''conf'') True True)) = [ustr ''/srv/a.conf''] \<and>
   flag_reads (trace (search_worker example_platform (\<lambda>k. 0 < k) (ustr ''/srv'') (ustr ''port'')
                      (ustr ''conf'') True True)) = 2 \<and>
   puts (trace (search_worker example_platform (\<lambda>k. 0 < k) (ustr ''/srv'') (ustr ''port'')
                      (ustr ''conf'') True True)) = [SEARCH_DONE] \<and>
   trace (search_worker example_platform (\<lambda>k. 0 < k) (ustr ''/srv'') (ustr ''port'')
            (ustr ''conf'') True True) ! 2 = IsSet True \<and>
   drop 3 (trace (search_worker example_platform (\<lambda>k. 0 < k) (ustr ''/srv'') (ustr ''port'')
            (ustr ''conf'') True True)) = [Put SEARCH_DONE] \<and>
   count_list (puts (trace (search_worker example_platform (\<lambda>k. 0 < k) (ustr ''/srv'')
            (ustr ''port'') (ustr ''conf'') True True))) SEARCH_DONE = 1"
proof -
  let ?T = "trace (search_worker example_platform (\<lambda>k. 0 < k) (ustr ''/srv'') (ustr ''port'')
                      (ustr ''conf'') True True)"
  note inst = search_worker_cancellation [of example_platform "\<lambda>k. 0 < k" "ustr ''/srv''" "ustr ''port''" "ustr ''conf''"
                    True True 1]
  have T: "?T = [IsSet False, Examine (ustr ''/srv/a.conf''), IsSet True, Put SEARCH_DONE]"
    by (simp add: search_worker_trace example_candidates example_contains)
  have h: "1 < length (candidates example_platform (ustr ''/srv'') (ustr ''conf'') True) \<and>
     (\<lambda>k. 0 < k) (1::nat) \<and> (\<forall>j<1. \<not> (\<lambda>k. 0 < k) (j::nat))"
    by (simp add: example_candidates)
  from h inst have
    a: "examined ?T = take 1 (candidates example_platform (ustr ''/srv'') (ustr ''conf'') True)"
    and b: "flag_reads ?T = 1 + 1"
    and c: "puts ?T = filter (\<lambda>path. file_contains_text example_platform path (ustr ''port'') True)
               (take 1 (candidates example_platform (ustr ''/srv'') (ustr ''conf'') True))
             @ [SEARCH_DONE]"
    by blast+
  have i: "2 < length ?T \<and> ?T ! 2 = IsSet True" by (simp add: T)
  with inst have d: "drop (Suc 2) ?T = [Put SEARCH_DONE]" by blast
  have "SEARCH_DONE \<notin> set (candidates example_platform (ustr ''/srv'') (ustr ''conf'') True)"
    unfolding example_candidates by (rule sentinel_not_candidate)
  with inst have e: "count_list (puts ?T) SEARCH_DONE = 1" by blast
  from a b c d e i example_candidates example_contains show ?thesis
    by (simp add: numeral_3_eq_3)
qed

section \<open>One search at a time\<close>

lemma on_sentinel_threads:
  "threads (on_sentinel s) = threads s" "search_thread (on_sentinel s) = search_thread s"
  by (simp_all add: on_sentinel_def Let_def)

lemma drain_threads:
  "threads (fst (drain items (s, u))) = threads s \<and>
   search_thread (fst (drain items (s, u))) = search_thread s"
  by (induction items arbitrary: s u) (simp_all add: on_sentinel_threads)

lemma poll_queue_threads:
  "threads (poll_queue s) = threads s" "search_thread (poll_queue s) = search_thread s"
proof -
  obtain s1 u where d: "drain (result_queue s) (s\<lparr>result_queue := []\<rparr>, False) = (s1, u)"
    by (cases "drain (result_queue s) (s\<lparr>result_queue := []\<rparr>, False)")
  with drain_threads [of "result_queue s" "s\<lparr>result_queue := []\<rparr>" False]
  have "threads s1 = threads s" "search_thread s1 = search_thread s" by simp_all
  then show "threads (poll_queue s) = threads s" "search_thread (poll_queue s) = search_thread s"
    by (simp_all add: poll_queue_def d)
qed

lemma on_search_clicked_rejected:
  "search_thread_alive s \<Longrightarrow>
   on_search_clicked P fq s = s\<lparr>dialogs := dialogs s @ [InfoAlreadySearching]\<rparr>"
  by (simp add: on_search_clicked_def)

lemma on_search_clicked_cases:
  "(threads (on_search_clicked P fq s) = threads s \<and>
    search_thread (on_search_clicked P fq s) = search_thread s) \<or>
   (\<not> search_thread_alive s \<and>
    (\<exists>t. alive t \<and> threads (on_search_clicked P fq s) = threads s @ [t]) \<and>
    search_thread (on_search_clicked P fq s) = Some (length (threads s)))"
  by (simp add: on_search_clicked_def Let_def update_folder_history_def clear_results_def)

lemma owner_only_click:
  assumes "owner_only s"
  shows "owner_only (on_search_clicked P fq s)"
proof -
  define s' where "s' = on_search_clicked P fq s"
  from on_search_clicked_cases [of P fq s] show ?thesis
  proof
    assume "threads (on_search_clicked P fq s) = threads s \<and>
      search_thread (on_search_clicked P fq s) = search_thread s"
    with assms show ?thesis by (simp add: owner_only_def)
  next
    assume n: "\<not> search_thread_alive s \<and>
      (\<exists>t. alive t \<and> threads (on_search_clicked P fq s) = threads s @ [t]) \<and>
      search_thread (on_search_clicked P fq s) = Some (length (threads s))"
    then obtain t where t: "threads s' = threads s @ [t]" "search_thread s' = Some (length (threads s))"
      by (auto simp: s'_def)
    have dead: "\<not> alive (threads s ! i)" if "i < length (threads s)" for i
    proof
      assume "alive (threads s ! i)"
      with assms that have "search_thread s = Some i" by (simp add: owner_only_def)
      with that \<open>alive (threads s ! i)\<close> have "search_thread_alive s"
        by (simp add: search_thread_alive_def)
      with n show False by simp
    qed
    have "owner_only s'"
      unfolding owner_only_def
    proof (intro allI impI)
      fix i assume i: "i < length (threads s')" "alive (threads s' ! i)"
      show "search_thread s' = Some i"
      proof (cases "i < length (threads s)")
        case True
        with i t dead [OF True] show ?thesis by (simp add: nth_append)
      next
        case False
        with i t show ?thesis by simp
      qed
    qed
    then show ?thesis by (simp add: s'_def)
  qed
qed

lemma owner_only_step:
  assumes "owner_only s" "step P s s'"
  shows "owner_only s'"
  using assms(2)
proof cases
  case (click_search fq)
  with assms(1) show ?thesis by (simp add: owner_only_click)
next
  case click_stop
  with assms(1) show ?thesis by (simp add: owner_only_def on_stop_clicked_def)
next
  case click_clear
  with assms(1) show ?thesis by (simp add: owner_only_def clear_results_def)
next
  case query_enter
  from assms(1) have "owner_only (s\<lparr>focus_results_after_search := True\<rparr>)"
    by (simp add: owner_only_def)
  then show ?thesis unfolding query_enter on_query_enter_def by (rule owner_only_click)
next
  case (browse folder)
  with assms(1) show ?thesis
    by (simp add: owner_only_def browse_folder_def update_folder_history_def Let_def)
next
  case (select sel a f)
  with assms(1) show ?thesis by (simp add: owner_only_def)
next
  case copy
  with assms(1) show ?thesis by (simp add: owner_only_def)
next
  case close
  with assms(1) show ?thesis by (simp add: owner_only_def)
next
  case tick
  with assms(1) show ?thesis by (simp add: owner_only_def poll_queue_threads)
next
  case (edit f q e r c)
  with assms(1) show ?thesis by (simp add: owner_only_def)
next
  case (worker_put i item)
  with assms(1) show ?thesis by (simp add: owner_only_def)
next
  case (worker_exit i)
  with assms(1) show ?thesis by (auto simp add: owner_only_def nth_list_update)
qed

lemma reachable_owner_only: "reachable P s \<Longrightarrow> owner_only s"
proof (induction rule: reachable.induct)
  case (init s)
  then show ?case by (simp add: owner_only_def)
next
  case (next_state s s')
  then show ?case by (blast intro: owner_only_step)
qed

text \<open>
  Claim C9. In every state the window can reach, at most one worker thread is alive.
  A click on search while the thread of \<open>self.search_thread\<close> is alive only shows the
  notice: no thread is added, and the queue, the cancellation flag and the result list
  stay as they are.
\<close>

theorem single_search_active:
  "reachable P s \<Longrightarrow>
   (\<forall>i j. i < length (threads s) \<and> j < length (threads s) \<and>
          alive (threads s ! i) \<and> alive (threads s ! j) \<longrightarrow> i = j) \<and>
   (search_thread_alive s \<longrightarrow>
      on_search_clicked P from_query s = s\<lparr>dialogs := dialogs s @ [InfoAlreadySearching]\<rparr> \<and>
      threads (on_search_clicked P from_query s) = threads s \<and>
      search_thread (on_search_clicked P from_query s) = search_thread s \<and>
      result_queue (on_search_clicked P from_query s) = result_queue s \<and>
      stop_event (on_search_clicked P from_query s) = stop_event s \<and>
      results (on_search_clicked P from_query s) = results s)"
proof -
  assume "reachable P s"
  then have o: "owner_only s" by (rule reachable_owner_only)
  have 1: "i = j" if "i < length (threads s) \<and> j < length (threads s) \<and>
          alive (threads s ! i) \<and> alive (threads s ! j)" for i j
    using o that unfolding owner_only_def by (metis option.inject)
  have 2: "on_search_clicked P from_query s = s\<lparr>dialogs := dialogs s @ [InfoAlreadySearching]\<rparr> \<and>
      threads (on_search_clicked P from_query s) = threads s \<and>
      search_thread (on_search_clicked P from_query s) = search_thread s \<and>
      result_queue (on_search_clicked P from_query s) = result_queue s \<and>
      stop_event (on_search_clicked P from_query s) = stop_event s \<and>
      results (on_search_clicked P from_query s) = results s"
    if "search_thread_alive s"
    by (simp add: on_search_clicked_rejected [OF that])
  from 1 2 show ?thesis by blast
qed

lemma searching_app_threads:
  "threads searching_app =
     [\<lparr>arg_folder = ustr ''/srv'', arg_query = ustr ''Config'', arg_ext = ustr ''.conf'',
       arg_recursive = True, arg_case_sensitive = False, alive = True\<rparr>]"
  "search_thread searching_app = Some 0"
proof -
  have e: "\<forall>c \<in> set (ext_var example_app). is_space c" "\<not> search_thread_alive example_app"
    "strip (folder_var example_app) \<noteq> []"
    "path_isdir example_platform (strip (folder_var example_app))"
    "query_var example_app \<noteq> []"
    by (simp_all add: example_app_def example_platform_def search_thread_alive_def strip_srv)
       (simp_all add: ustr_Nil ustr_Cons is_space_def)
  show "threads searching_app =
     [\<lparr>arg_folder = ustr ''/srv'', arg_query = ustr ''Config'', arg_ext = ustr ''.conf'',
       arg_recursive = True, arg_case_sensitive = False, alive = True\<rparr>]"
    unfolding searching_app_def on_search_clicked_blank_ext(2) [OF e]
    by (simp add: example_app_def strip_srv)
  from on_search_clicked_cases [of example_platform False example_app]
  show "search_thread searching_app = Some 0"
    using \<open>threads searching_app = _\<close>
    by (auto simp: searching_app_def example_app_def)
qed

lemma searching_app_fields:
  "results searching_app = []" "focus_results_after_search searching_app = False"
  "search_btn searching_app = DISABLED" "stop_btn searching_app = NORMAL"
  "status_var searching_app = StatusSearching"
proof -
  have e: "\<not> search_thread_alive example_app"
    "strip (folder_var example_app) \<noteq> []"
    "path_isdir example_platform (strip (folder_var example_app))"
    "query_var example_app \<noteq> []"
    by (simp_all add: example_app_def example_platform_def search_thread_alive_def strip_srv)
       (simp_all add: ustr_Nil ustr_Cons)
  show "results searching_app = []" "focus_results_after_search searching_app = False"
  "search_btn searching_app = DISABLED" "stop_btn searching_app = NORMAL"
  "status_var searching_app = StatusSearching"
    using e
    by (simp_all add: searching_app_def on_search_clicked_def Let_def update_folder_history_def
        clear_results_def)
qed

text \<open>The theorem at a second click in the example window while its search runs.\<close>

theorem single_search_active_witness:
  "reachable example_platform searching_app \<and> search_thread_alive searching_app \<and>
   length (threads searching_app) = 1 \<and>
   dialogs (on_search_clicked example_platform True searching_app)
     = dialogs searching_app @ [InfoAlreadySearching] \<and>
   threads (on_search_clicked example_platform True searching_app) = threads searching_app \<and>
   result_queue (on_search_clicked example_platform True searching_app) = result_queue searching_app"
proof -
  have "reachable example_platform example_app"
    by (rule reachable.init) (simp_all add: example_app_def)
  then have r: "reachable example_platform searching_app"
    unfolding searching_app_def by (rule reachable.next_state) (rule step.click_search)
  have a: "search_thread_alive searching_app"
    by (simp add: search_thread_alive_def searching_app_threads)
  from single_search_active [OF r, of True] a
  have "on_search_clicked example_platform True searching_app
          = searching_app\<lparr>dialogs := dialogs searching_app @ [InfoAlreadySearching]\<rparr>"
    by blast
  then have d: "dialogs (on_search_clicked example_platform True searching_app)
     = dialogs searching_app @ [InfoAlreadySearching]"
    "threads (on_search_clicked example_platform True searching_app) = threads searching_app"
    "result_queue (on_search_clicked example_platform True searching_app) = result_queue searching_app"
    by simp_all
  from r a d show ?thesis by (simp add: searching_app_threads)
qed

subsection \<open>The tick that sees the sentinel\<close>

lemma sentinel_neq: "ustr ''/srv/a.conf'' \<noteq> SEARCH_DONE"
  by (simp add: SEARCH_DONE_def ustr_Nil ustr_Cons)

lemma drain_results:
  "SEARCH_DONE \<notin> set items \<Longrightarrow>
   drain items (s, u) = (s\<lparr>results := results s @ items\<rparr>, u \<or> items \<noteq> [])"
  by (induction items arbitrary: s u) auto

lemma drain_append: "drain (xs @ ys) su = drain ys (drain xs su)"
  by (induction xs arbitrary: su) (auto split: prod.splits)

text \<open>
  A tick that takes at least one path and then the sentinel from the queue enables
  search and disables stop, but leaves the in-progress text in the status line: the
  final \<open>if updated\<close> of \<open>_poll_queue\<close> runs after the sentinel branch has set the
  summary.
\<close>

lemma poll_queue_overwrites_summary:
  assumes "items \<noteq> []" "SEARCH_DONE \<notin> set items" "result_queue s = items @ [SEARCH_DONE]"
  shows "status_var (poll_queue s) = StatusProgress (length (results s) + length items)"
    and "search_btn (poll_queue s) = NORMAL" and "stop_btn (poll_queue s) = DISABLED"
  using assms
  by (simp_all add: poll_queue_def drain_append drain_results on_sentinel_def Let_def)

text \<open>
  Claim C5 says that after such a tick the status line shows the completion summary.
  The code does not do so. In the example window, with one path and the sentinel on the
  queue, the tick leaves one result, search enabled and stop disabled as claimed, and
  the status "in progress... 1 found so far" instead of "search complete: 1 files".
\<close>

theorem poll_queue_final_tick:
  "result_queue finishing_app = [ustr ''/srv/a.conf'', SEARCH_DONE] \<and>
   results finishing_app = [] \<and>
   results (poll_queue finishing_app) = [ustr ''/srv/a.conf''] \<and>
   search_btn (poll_queue finishing_app) = NORMAL \<and>
   stop_btn (poll_queue finishing_app) = DISABLED \<and>
   status_var (poll_queue finishing_app) = StatusProgress 1 \<and>
   status_var (poll_queue finishing_app) \<noteq> StatusDone 1"
  using sentinel_neq
  by (simp add: finishing_app_def poll_queue_def on_sentinel_def Let_def searching_app_fields)

end
